theory Spec2Isabelle
  imports Main "HOL-Library.Sublist" "HOL-Library.Multiset"
begin

section \<open>Note history (frontend/src/redux/history/slice.ts)\<close>

text \<open>
  The history state is an array of entries. The reducers only look at the entry's
  \<open>identifier\<close>; the remaining fields of an entry (title, tags, pin status, origin, ...)
  are carried along unchanged and are kept here as one polymorphic field.
\<close>

record 'a HistoryEntry =
  entry_identifier :: string
  entryData :: 'a

type_synonym 'a HistoryState = "'a HistoryEntry list"

record 'a UpdateEntryPayload =
  noteId :: string
  newEntry :: "'a HistoryEntry"

record RemoveEntryPayload =
  removeNoteId :: string

text \<open>\<^verbatim>\<open>setEntries: (state, action) => action.payload\<close>\<close>

definition setEntries :: "'a HistoryState \<Rightarrow> 'a HistoryState \<Rightarrow> 'a HistoryState" where
  "setEntries state payload = payload"

text \<open>
  \<^verbatim>\<open>state.filter((entry) => entry.identifier !== action.payload.noteId).concat(action.payload.newEntry)\<close>
\<close>

definition updateEntry :: "'a HistoryState \<Rightarrow> 'a UpdateEntryPayload \<Rightarrow> 'a HistoryState" where
  "updateEntry state payload =
     filter (\<lambda>entry. entry_identifier entry \<noteq> noteId payload) state @ [newEntry payload]"

text \<open>\<^verbatim>\<open>state.filter((entry) => entry.identifier !== action.payload.noteId)\<close>\<close>

definition removeEntry :: "'a HistoryState \<Rightarrow> RemoveEntryPayload \<Rightarrow> 'a HistoryState" where
  "removeEntry state payload =
     filter (\<lambda>entry. entry_identifier entry \<noteq> removeNoteId payload) state"

text \<open>
  The claim's wording, as a relation between a list and the list obtained from it by
  removing every entry with a given identifier: the result is a subsequence of the
  original (so relative order is kept), it holds no entry with that identifier, and
  every other entry occurs in it as often as in the original.
\<close>

definition removedAll :: "string \<Rightarrow> 'a HistoryState \<Rightarrow> 'a HistoryState \<Rightarrow> bool" where
  "removedAll n state res \<longleftrightarrow>
     subseq res state \<and>
     (\<forall>e \<in> set res. entry_identifier e \<noteq> n) \<and>
     (\<forall>e. entry_identifier e \<noteq> n \<longrightarrow> count_list res e = count_list state e)"

section \<open>Authorship decorations (authorship-layers-extensions.ts)\<close>

text \<open>
  The payload of an authorship update effect. \<open>from\<close> and \<open>to\<close> are document offsets;
  they are called \<open>eff_from\<close> and \<open>eff_to\<close> here.
\<close>

record AuthorshipUpdate =
  eff_from :: int
  eff_to :: int
  userId :: string
  localUpdate :: bool

text \<open>
  A range of the decoration set: the two offsets and what the mark's spec holds, the
  colour class (given by its style index) and the optional \<open>data-user-id\<close> attribute.
\<close>

record DecorationRange =
  range_from :: int
  range_to :: int
  styleIndex :: int
  dataUserId :: "string option"

subsection \<open>The host's range sets\<close>

text \<open>
  The decoration set belongs to the host editor (CodeMirror), whose code is not part of
  this repository; what follows is the part of its \<open>RangeSet\<close> that
  \<open>authorshipsStateField.update\<close> calls. A range set is a list of layers. Within a layer
  the ranges are in position order and do not overlap; a range that overlaps the layer's
  last range goes to the next layer. \<open>Decoration.none\<close> is the empty list. The grouping
  of a layer's ranges into chunks is storage only and is left out.

  All ranges of this set are marks made by \<open>createMark\<close>, that is, non-inclusive marks:
  a mark that starts where the previous one ends does not overlap it.
\<close>

type_synonym Layer = "DecorationRange list"

type_synonym DecorationSet = "Layer list"

text \<open>
  The two errors the host throws here: \<open>RangeError\<close> ("Mark decorations may not be
  empty") from \<open>range(from, to)\<close> of a mark when \<open>from >= to\<close>, and the error of the
  builder ("Ranges must be added sorted by `from` position and `startSide`").
\<close>

datatype editorError = RangeError | UnsortedRangesError

text \<open>\<open>Decoration.mark(spec).range(from, to)\<close>, with the spec's class and attribute.\<close>

definition markRange :: "int \<Rightarrow> string \<Rightarrow> int \<Rightarrow> int \<Rightarrow> editorError + DecorationRange" where
  "markRange idx u f t =
     (if f \<ge> t then Inl RangeError
      else Inr \<lparr>range_from = f, range_to = t, styleIndex = idx, dataUserId = Some u\<rparr>)"

text \<open>
  \<open>RangeSetBuilder.addInner\<close> on the ranges \<open>b\<close> already in the builder's layer: a range
  that starts before the end of the last one is refused (\<open>None\<close>, the caller moves it to
  another layer), and throws when it even starts before the start of the last one;
  every other range is appended.
\<close>

definition addInner :: "DecorationRange \<Rightarrow> Layer \<Rightarrow> editorError + Layer option" where
  "addInner r b =
     (if b = [] then Inr (Some [r])
      else if range_from r < range_to (last b) then
             (if range_from r < range_from (last b) then Inl UnsortedRangesError else Inr None)
      else Inr (Some (b @ [r])))"

text \<open>
  \<open>RangeSetBuilder.add\<close>: a range refused by the builder's layer is added to the
  builder of the next layer. \<open>RangeSet.of(ranges)\<close> adds the ranges in the given order
  to an empty builder.
\<close>

fun builderAdd :: "DecorationRange \<Rightarrow> Layer list \<Rightarrow> editorError + Layer list" where
  "builderAdd r [] = Inr [[r]]"
| "builderAdd r (b # bs) =
     (case addInner r b of
        Inl err \<Rightarrow> Inl err
      | Inr (Some b') \<Rightarrow> Inr (b' # bs)
      | Inr None \<Rightarrow> (case builderAdd r bs of Inl err \<Rightarrow> Inl err | Inr bs' \<Rightarrow> Inr (b # bs')))"

fun builderAddAll :: "DecorationRange list \<Rightarrow> Layer list \<Rightarrow> editorError + Layer list" where
  "builderAddAll [] bs = Inr bs"
| "builderAddAll (r # rs) bs =
     (case builderAdd r bs of Inl err \<Rightarrow> Inl err | Inr bs' \<Rightarrow> builderAddAll rs bs')"

definition rangeSetOf :: "DecorationRange list \<Rightarrow> editorError + DecorationSet" where
  "rangeSetOf ranges = builderAddAll ranges []"

text \<open>
  The filter of \<open>RangeSet.update\<close> is asked for a range unless the range ends before
  \<open>filterFrom\<close> or starts after \<open>filterTo\<close>: ranges that only touch the closed range
  \<open>filterFrom..filterTo\<close> are passed to it too.
\<close>

definition filterApplies :: "int \<Rightarrow> int \<Rightarrow> DecorationRange \<Rightarrow> bool" where
  "filterApplies filterFrom filterTo r \<longleftrightarrow> \<not> (filterFrom > range_to r \<or> filterTo < range_from r)"

text \<open>
  One step of the loop of \<open>RangeSet.update\<close>: the range goes into the layer being built,
  or, when the layer refuses it, to the spill that is handed to the next layer.
\<close>

definition addToLayer ::
  "DecorationRange \<Rightarrow> Layer \<times> DecorationRange list
     \<Rightarrow> editorError + Layer \<times> DecorationRange list" where
  "addToLayer r bs =
     (case addInner r (fst bs) of
        Inl err \<Rightarrow> Inl err
      | Inr None \<Rightarrow> Inr (fst bs, snd bs @ [r])
      | Inr (Some b') \<Rightarrow> Inr (b', snd bs))"

text \<open>
  The loop of \<open>RangeSet.update\<close> over one layer: it merges the layer's ranges with the
  ranges to add, taking the added range when the layer's next range does not start
  before it. A range of the layer is kept when there is no filter, when the filter does
  not apply to it, or when the callback returns true. The callback runs on the caller's
  state and may throw; a throw ends the update.
\<close>

fun layerLoop ::
  "(DecorationRange \<Rightarrow> 's \<Rightarrow> 's \<times> (editorError + bool)) option \<Rightarrow> int \<Rightarrow> int \<Rightarrow> Layer
     \<Rightarrow> DecorationRange list \<Rightarrow> Layer \<times> DecorationRange list \<Rightarrow> 's
     \<Rightarrow> 's \<times> (editorError + Layer \<times> DecorationRange list)" where
  "layerLoop cb ff ft [] [] bs st = (st, Inr bs)"
| "layerLoop cb ff ft [] (a # as) bs st =
     (case addToLayer a bs of
        Inl err \<Rightarrow> (st, Inl err)
      | Inr bs' \<Rightarrow> layerLoop cb ff ft [] as bs' st)"
| "layerLoop cb ff ft (r # rs) [] bs st =
     (case (case cb of
              None \<Rightarrow> (st, Inr True)
            | Some f \<Rightarrow> if filterApplies ff ft r then f r st else (st, Inr True)) of
        (st1, Inl err) \<Rightarrow> (st1, Inl err)
      | (st1, Inr False) \<Rightarrow> layerLoop cb ff ft rs [] bs st1
      | (st1, Inr True) \<Rightarrow>
          (case addToLayer r bs of
             Inl err \<Rightarrow> (st1, Inl err)
           | Inr bs' \<Rightarrow> layerLoop cb ff ft rs [] bs' st1))"
| "layerLoop cb ff ft (r # rs) (a # as) bs st =
     (if range_from r - range_from a \<ge> 0 then
        (case addToLayer a bs of
           Inl err \<Rightarrow> (st, Inl err)
         | Inr bs' \<Rightarrow> layerLoop cb ff ft (r # rs) as bs' st)
      else
        (case (case cb of
                 None \<Rightarrow> (st, Inr True)
               | Some f \<Rightarrow> if filterApplies ff ft r then f r st else (st, Inr True)) of
           (st1, Inl err) \<Rightarrow> (st1, Inl err)
         | (st1, Inr False) \<Rightarrow> layerLoop cb ff ft rs (a # as) bs st1
         | (st1, Inr True) \<Rightarrow>
             (case addToLayer r bs of
                Inl err \<Rightarrow> (st1, Inl err)
              | Inr bs' \<Rightarrow> layerLoop cb ff ft rs (a # as) bs' st1)))"

text \<open>
  \<open>RangeSet.update({add, filter, filterFrom, filterTo})\<close>. Without ranges to add and
  without a filter the set is returned as it is; the empty set becomes
  \<open>RangeSet.of(add)\<close>. Otherwise the first layer is rebuilt by the loop, and the next
  layers are updated with the same filter and with the spill as the ranges to add: the
  filter sees the whole first layer before any range of the second. A layer that ends
  up empty is dropped.
\<close>

fun rangeSetUpdate ::
  "(DecorationRange \<Rightarrow> 's \<Rightarrow> 's \<times> (editorError + bool)) option \<Rightarrow> int \<Rightarrow> int
     \<Rightarrow> DecorationRange list \<Rightarrow> DecorationSet \<Rightarrow> 's \<Rightarrow> 's \<times> (editorError + DecorationSet)" where
  "rangeSetUpdate cb ff ft add [] st =
     (st, if add = [] then Inr [] else rangeSetOf add)"
| "rangeSetUpdate cb ff ft add (layer # nextLayer) st =
     (if add = [] \<and> cb = None then (st, Inr (layer # nextLayer))
      else
        (case layerLoop cb ff ft layer add ([], []) st of
           (st1, Inl err) \<Rightarrow> (st1, Inl err)
         | (st1, Inr (b, spill)) \<Rightarrow>
             (case (if nextLayer = [] \<and> spill = [] then (st1, Inr [])
                    else rangeSetUpdate cb ff ft spill nextLayer st1) of
                (st2, Inl err) \<Rightarrow> (st2, Inl err)
              | (st2, Inr next) \<Rightarrow> (st2, Inr (if b = [] then next else b # next)))))"

text \<open>
  What the range sets of this state field satisfy: no layer is empty, the marks of a
  layer are non-empty and lie one after the other, and the offsets are document
  positions, from 0 on (the host's loop reads a layer from position 0). The empty set
  \<open>Decoration.none\<close> is of this kind, and \<open>applyEffect\<close> below keeps the property for
  effects at document positions (lemma \<open>applyEffect_wellFormed\<close>).
\<close>

definition goodMark :: "DecorationRange \<Rightarrow> bool" where
  "goodMark r \<longleftrightarrow> range_from r < range_to r"

definition wellFormedLayer :: "Layer \<Rightarrow> bool" where
  "wellFormedLayer l \<longleftrightarrow>
     l \<noteq> [] \<and> sorted_wrt (\<lambda>a b. range_to a \<le> range_from b) l \<and> list_all goodMark l"

definition wellFormed :: "DecorationSet \<Rightarrow> bool" where
  "wellFormed ds \<longleftrightarrow>
     list_all wellFormedLayer ds \<and> list_all (\<lambda>r. 0 \<le> range_from r) (concat ds)"

subsection \<open>The extension\<close>

text \<open>
  The module-level \<open>colorSet\<close> is a JavaScript \<open>Set\<close>: it keeps insertion order and
  holds every member once.
\<close>

type_synonym ColorSet = "string list"

definition colorSet_add :: "string \<Rightarrow> ColorSet \<Rightarrow> ColorSet" where
  "colorSet_add u cs = (if u \<in> set cs then cs else cs @ [u])"

text \<open>\<open>Array.prototype.indexOf\<close>: the first index of the element, \<open>-1\<close> when absent.\<close>

fun indexOf :: "'a list \<Rightarrow> 'a \<Rightarrow> int" where
  "indexOf [] x = - 1"
| "indexOf (y # ys) x =
     (if y = x then 0 else (let i = indexOf ys x in if i < 0 then - 1 else i + 1))"

text \<open>The remainder operator of JavaScript on integers: the sign follows the dividend.\<close>

definition jsRem :: "int \<Rightarrow> int \<Rightarrow> int" where
  "jsRem a b = sgn a * (\<bar>a\<bar> mod \<bar>b\<bar>)"

text \<open>
  \<open>createMark\<close> registers the user in \<open>colorSet\<close>, picks the style index from the
  user's position there, and asks the host for the mark \<open>from\<close>..\<open>to\<close> with the user in
  its \<open>data-user-id\<close> attribute. The user is registered before the host may throw, so
  the updated \<open>colorSet\<close> is returned in both cases.
\<close>

definition createMark ::
  "int \<Rightarrow> int \<Rightarrow> string \<Rightarrow> ColorSet \<Rightarrow> ColorSet \<times> (editorError + DecorationRange)" where
  "createMark f t u cs =
     (let cs' = colorSet_add u cs;
          idx = jsRem (indexOf cs' u) 7
      in (cs', markRange idx u f t))"

text \<open>
  What the filter callback of one effect closes over and mutates: \<open>effectHandled\<close>,
  \<open>addedDecorations\<close>, and the module's \<open>colorSet\<close> (through \<open>createMark\<close>).
\<close>

record FilterState =
  effectHandled :: bool
  addedDecorations :: "DecorationRange list"
  colorSet :: ColorSet

text \<open>
  \<^verbatim>\<open>(value.spec as MarkDecoration).attributes?.['data-user-id'] ?? ''\<close>
\<close>

definition decorationUserIdOf :: "DecorationRange \<Rightarrow> string" where
  "decorationUserIdOf r = (case dataUserId r of None \<Rightarrow> [] | Some u \<Rightarrow> u)"

text \<open>
  \<open>addedDecorations.push(createMark(f, t, u))\<close> on the callback's state; when
  \<open>createMark\<close> throws, nothing is pushed.
\<close>

definition pushMark ::
  "int \<Rightarrow> int \<Rightarrow> string \<Rightarrow> FilterState \<Rightarrow> FilterState \<times> (editorError + unit)" where
  "pushMark f t u st =
     (case createMark f t u (colorSet st) of
        (cs', Inl err) \<Rightarrow> (st\<lparr>colorSet := cs'\<rparr>, Inl err)
      | (cs', Inr m) \<Rightarrow>
          (st\<lparr>addedDecorations := addedDecorations st @ [m], colorSet := cs'\<rparr>, Inr ()))"

text \<open>Statements in sequence: a throw skips what follows.\<close>

definition andThen ::
  "'s \<times> (editorError + 'a) \<Rightarrow> ('a \<Rightarrow> 's \<Rightarrow> 's \<times> (editorError + 'b))
     \<Rightarrow> 's \<times> (editorError + 'b)" where
  "andThen m k = (case m of (s, Inl err) \<Rightarrow> (s, Inl err) | (s, Inr a) \<Rightarrow> k a s)"

text \<open>
  The filter callback of \<open>authorshipsStateField.update\<close> for one effect (lines 87-128):
  it returns whether the decoration is kept, and the updated state. The second conjunct
  of \<open>sameUserId\<close>, \<open>decorationUserId !== undefined\<close>, always holds after the
  \<open>?? ''\<close> of the line before.
\<close>

definition filterCallback ::
  "AuthorshipUpdate \<Rightarrow> DecorationRange \<Rightarrow> FilterState \<Rightarrow> FilterState \<times> (editorError + bool)" where
  "filterCallback e r st =
     (if effectHandled st then (st, Inr True)
      else
        let decorationFrom = range_from r;
            decorationTo = range_to r;
            effectFrom = eff_from e;
            effectTo = eff_to e;
            decorationUserId = decorationUserIdOf r;
            sameUserId = (decorationUserId = userId e)
        in
          if sameUserId then
            (if decorationFrom = effectTo \<or> decorationTo = effectFrom then
               andThen (pushMark (min decorationFrom effectFrom) (max decorationTo effectTo)
                          decorationUserId st)
                 (\<lambda>_ st1. (st1\<lparr>effectHandled := True\<rparr>, Inr False))
             else
               andThen (pushMark decorationFrom decorationTo decorationUserId st)
                 (\<lambda>_ st1. (st1\<lparr>effectHandled := True\<rparr>, Inr False)))
          else
            andThen (if decorationFrom < effectFrom
                     then pushMark decorationFrom effectFrom decorationUserId st
                     else (st, Inr ()))
              (\<lambda>_ st1. andThen (pushMark effectFrom effectTo (userId e) st1)
                 (\<lambda>_ st2. andThen (if effectTo < decorationTo
                                     then pushMark effectTo decorationTo decorationUserId st2
                                     else (st2, Inr ()))
                    (\<lambda>_ st3. (st3\<lparr>effectHandled := True\<rparr>, Inr False)))))"

text \<open>
  The body of \<open>effects.forEach\<close> (lines 65-141) for one effect: the update with the
  filter, the mark for the effect itself when the callback added nothing, and the
  update that adds the marks. \<open>effectIsLocal\<close> and \<open>effectLength\<close> are bound as in the
  source, which passes them to the debug log only. The result is the module's
  \<open>colorSet\<close> with the new decoration set, or with the error thrown.
\<close>

definition applyEffect ::
  "AuthorshipUpdate \<Rightarrow> ColorSet \<times> DecorationSet \<Rightarrow> ColorSet \<times> (editorError + DecorationSet)" where
  "applyEffect e s =
     (let effectIsLocal = localUpdate e;
          effectLength = eff_to e - eff_from e;
          st0 = \<lparr>effectHandled = False, addedDecorations = [], colorSet = fst s\<rparr>
      in case rangeSetUpdate (Some (filterCallback e)) (eff_from e) (eff_to e) [] (snd s) st0 of
           (st1, Inl err) \<Rightarrow> (colorSet st1, Inl err)
         | (st1, Inr kept) \<Rightarrow>
             (case (if addedDecorations st1 = []
                    then pushMark (eff_from e) (eff_to e) (userId e) st1 else (st1, Inr ())) of
                (st2, Inl err) \<Rightarrow> (colorSet st2, Inl err)
              | (st2, Inr _) \<Rightarrow>
                  (colorSet st2, snd (rangeSetUpdate None 0 0 (addedDecorations st2) kept ()))))"

text \<open>
  A transaction carries the document changes and a list of state effects; the effects
  of other extensions are told apart by \<open>effect.is(authorshipsUpdateEffect)\<close>.
\<close>

datatype StateEffect = AuthorshipsUpdateEffect AuthorshipUpdate | OtherEffect nat

record 'c Transaction =
  changes :: 'c
  effects :: "StateEffect list"

fun authorshipEffects :: "StateEffect list \<Rightarrow> AuthorshipUpdate list" where
  "authorshipEffects [] = []"
| "authorshipEffects (AuthorshipsUpdateEffect u # es) = u # authorshipEffects es"
| "authorshipEffects (OtherEffect k # es) = authorshipEffects es"

text \<open>\<open>effects.forEach\<close>: the effects in order, each on the result of the one before.\<close>

fun forEachEffect ::
  "AuthorshipUpdate list \<Rightarrow> ColorSet \<times> DecorationSet \<Rightarrow> ColorSet \<times> (editorError + DecorationSet)" where
  "forEachEffect [] s = (fst s, Inr (snd s))"
| "forEachEffect (e # es) s =
     (case applyEffect e s of
        (cs, Inl err) \<Rightarrow> (cs, Inl err)
      | (cs, Inr ds) \<Rightarrow> forEachEffect es (cs, ds))"

text \<open>
  \<open>authorshipsStateField.update\<close>. The host's \<open>DecorationSet.map(changes)\<close> is the
  parameter \<open>mapSet\<close>. The state is the module's \<open>colorSet\<close> and the field's
  decoration set.
\<close>

definition update ::
  "('c \<Rightarrow> DecorationSet \<Rightarrow> DecorationSet) \<Rightarrow> ColorSet \<times> DecorationSet \<Rightarrow> 'c Transaction
     \<Rightarrow> ColorSet \<times> (editorError + DecorationSet)" where
  "update mapSet s transaction =
     (let authorshipDecorations = mapSet (changes transaction) (snd s);
          effs = authorshipEffects (effects transaction)
      in if length effs = 0 then (fst s, Inr authorshipDecorations)
         else forEachEffect effs (fst s, authorshipDecorations))"

text \<open>A transaction without document changes leaves the decoration set as it is.\<close>

definition noChanges :: "unit \<Rightarrow> DecorationSet \<Rightarrow> DecorationSet" where
  "noChanges c ds = ds"

subsection \<open>Notions of the claims\<close>

text \<open>The span and the user of a decoration, without its colour.\<close>

definition spanOf :: "DecorationRange \<Rightarrow> int \<times> int \<times> string" where
  "spanOf r = (range_from r, range_to r, decorationUserIdOf r)"

text \<open>
  The first decoration for which the host's filter asks the callback of effect \<open>e\<close>:
  the first range, layer after layer, that touches the effect range.
\<close>

definition firstVisited :: "AuthorshipUpdate \<Rightarrow> DecorationSet \<Rightarrow> DecorationRange option" where
  "firstVisited e ds = find (filterApplies (eff_from e) (eff_to e)) (concat ds)"

text \<open>
  Two effects that differ at most in \<open>localUpdate\<close> agree once the flag is erased.
\<close>

fun eraseLocalUpdate :: "StateEffect \<Rightarrow> StateEffect" where
  "eraseLocalUpdate (AuthorshipsUpdateEffect u) =
     AuthorshipsUpdateEffect (u\<lparr>localUpdate := False\<rparr>)"
| "eraseLocalUpdate (OtherEffect k) = OtherEffect k"

text \<open>Short forms for writing down concrete decorations, effects and transactions.\<close>

definition mark :: "int \<Rightarrow> int \<Rightarrow> int \<Rightarrow> string \<Rightarrow> DecorationRange" where
  "mark f t i u = \<lparr>range_from = f, range_to = t, styleIndex = i, dataUserId = Some u\<rparr>"

definition authorshipUpdate :: "int \<Rightarrow> int \<Rightarrow> string \<Rightarrow> bool \<Rightarrow> AuthorshipUpdate" where
  "authorshipUpdate f t u l = \<lparr>eff_from = f, eff_to = t, userId = u, localUpdate = l\<rparr>"

definition transactionOf :: "AuthorshipUpdate list \<Rightarrow> unit Transaction" where
  "transactionOf es = \<lparr>changes = (), effects = map AuthorshipsUpdateEffect es\<rparr>"

subsection \<open>Notions of the proofs\<close>

abbreviation apart :: "DecorationRange \<Rightarrow> DecorationRange \<Rightarrow> bool" where
  "apart a b \<equiv> range_to a \<le> range_from b"

abbreviation fromOrdered :: "DecorationRange \<Rightarrow> DecorationRange \<Rightarrow> bool" where
  "fromOrdered a b \<equiv> range_from a \<le> range_from b"

text \<open>
  The invariant of the host's loop when it only adds: the layer and the ranges to add
  are ordered by their start, and nothing still to come starts before a range already
  placed. \<open>loopPost\<close> is what the loop then returns.
\<close>

definition loopInv :: "Layer \<Rightarrow> DecorationRange list \<Rightarrow> Layer \<times> DecorationRange list \<Rightarrow> bool" where
  "loopInv l add bs \<longleftrightarrow>
     sorted_wrt fromOrdered l \<and> sorted_wrt fromOrdered add \<and> sorted_wrt fromOrdered (snd bs) \<and>
     sorted_wrt apart (fst bs) \<and>
     list_all goodMark l \<and> list_all goodMark add \<and> list_all goodMark (fst bs) \<and>
     list_all goodMark (snd bs) \<and>
     (\<forall>y \<in> set (fst bs) \<union> set (snd bs). \<forall>x \<in> set l \<union> set add. range_from y \<le> range_from x)"

definition loopPost ::
  "Layer \<Rightarrow> DecorationRange list \<Rightarrow> Layer \<times> DecorationRange list
     \<Rightarrow> Layer \<times> DecorationRange list \<Rightarrow> bool" where
  "loopPost l add bs res \<longleftrightarrow>
     mset (fst res) + mset (snd res) = mset (fst bs) + mset (snd bs) + mset l + mset add \<and>
     sorted_wrt fromOrdered (snd res) \<and> sorted_wrt apart (fst res) \<and>
     list_all goodMark (fst res) \<and> list_all goodMark (snd res)"

text \<open>What the callback leaves behind when it handles a decoration without a throw.\<close>

definition handledWith ::
  "FilterState \<Rightarrow> FilterState \<Rightarrow> DecorationRange list \<Rightarrow> bool" where
  "handledWith st st1 added \<longleftrightarrow>
     effectHandled st1 \<and> addedDecorations st1 = addedDecorations st @ added"

section \<open>Note permissions (backend/src/permissions)\<close>

text \<open>
  Of the permissions service the sources hold the test suite
  (permissions.service.spec.ts) only: \<open>PermissionsService\<close> itself, the entities and the
  configuration enums are absent. The definitions of this section are therefore
  modelled from the specification (sections 3, 4 and 7 and the glossary) and agree with
  every expectation of the test suite.
\<close>

text \<open>
  Modelled from the spec: the guest-access policy enum \<open>GuestAccess\<close>
  (config/guest_access.enum).
\<close>

datatype GuestAccess = GuestAccess_DENY | GuestAccess_READ | GuestAccess_WRITE | GuestAccess_CREATE

text \<open>Modelled from the spec: the enum \<open>DefaultAccessLevel\<close> (config/default-access-level.enum).\<close>

datatype DefaultAccessLevel =
  DefaultAccessLevel_NONE | DefaultAccessLevel_READ | DefaultAccessLevel_WRITE

text \<open>
  Modelled from the spec: the part of \<open>NoteConfig\<close> the tests set, \<open>guestAccess\<close>,
  \<open>permissions.default.everyone\<close> and \<open>permissions.default.loggedIn\<close>.
\<close>

record NoteConfig =
  guestAccess :: GuestAccess
  defaultEveryone :: DefaultAccessLevel
  defaultLoggedIn :: DefaultAccessLevel

text \<open>Modelled from the spec: the entity \<open>User\<close>; users are compared by their \<open>id\<close>.\<close>

record User =
  user_id :: int
  username :: string

text \<open>
  Modelled from the spec: the entity \<open>Group\<close>, ordinary (with stored members) or special
  (membership implicit).
\<close>

record Group =
  group_name :: string
  special :: bool
  members :: "User list"

text \<open>Modelled from the spec: the names of the two special groups (groups/groups.special).\<close>

definition SpecialGroup_EVERYONE :: string where
  "SpecialGroup_EVERYONE = ''_EVERYONE''"

definition SpecialGroup_LOGGED_IN :: string where
  "SpecialGroup_LOGGED_IN = ''_LOGGED_IN''"

text \<open>
  Modelled from the spec: \<open>NoteUserPermission\<close> and \<open>NoteGroupPermission\<close>, a grantee
  (the user or the group) with the \<open>canEdit\<close> flag.
\<close>

record 'g NotePermission =
  grantee :: 'g
  canEdit :: bool

type_synonym NoteUserPermission = "User NotePermission"

type_synonym NoteGroupPermission = "Group NotePermission"

text \<open>
  Modelled from the spec: the entity \<open>Note\<close> with its owner (\<open>null\<close> for a note without
  one) and its two collections of permissions, in stored order.
\<close>

record Note =
  owner :: "User option"
  userPermissions :: "NoteUserPermission list"
  groupPermissions :: "NoteGroupPermission list"

text \<open>
  Modelled from the spec: \<open>PermissionsService.isOwner\<close>, the owner check. A guest
  (\<open>user = null\<close>) owns nothing, and a note without owner is owned by nobody.
\<close>

definition isOwner :: "User option \<Rightarrow> Note \<Rightarrow> bool" where
  "isOwner user note =
     (case user of
        None \<Rightarrow> False
      | Some u \<Rightarrow> (case owner note of None \<Rightarrow> False | Some ow \<Rightarrow> user_id ow = user_id u))"

text \<open>
  Modelled from the spec: the per-user grant layer, a loop over the note's user
  permissions that returns true at the first grant of the user that is enough (any grant
  for reading, a grant with \<open>canEdit\<close> for writing).
\<close>

fun userGrantLoop :: "User \<Rightarrow> bool \<Rightarrow> NoteUserPermission list \<Rightarrow> bool" where
  "userGrantLoop u wantEdit [] = False"
| "userGrantLoop u wantEdit (p # ps) =
     (if user_id (grantee p) = user_id u \<and> (canEdit p \<or> \<not> wantEdit) then True
      else userGrantLoop u wantEdit ps)"

definition hasPermissionUser :: "User option \<Rightarrow> Note \<Rightarrow> bool \<Rightarrow> bool" where
  "hasPermissionUser user note wantEdit =
     (case user of None \<Rightarrow> False | Some u \<Rightarrow> userGrantLoop u wantEdit (userPermissions note))"

text \<open>
  Modelled from the spec: what the guest-access policy lets a guest do through a grant
  of the EVERYONE group: nothing under DENY, reading under READ, reading and writing
  under WRITE and CREATE.
\<close>

definition guestAccessAllows :: "NoteConfig \<Rightarrow> bool \<Rightarrow> bool" where
  "guestAccessAllows cfg wantEdit =
     (case guestAccess cfg of
        GuestAccess_DENY \<Rightarrow> False
      | GuestAccess_READ \<Rightarrow> \<not> wantEdit
      | GuestAccess_WRITE \<Rightarrow> True
      | GuestAccess_CREATE \<Rightarrow> True)"

text \<open>
  Modelled from the spec: the default access level of the EVERYONE group bounds what a
  grant of that group gives (as \<open>createNoteGroupPermissionsCombinations\<close> of the tests
  expects): nothing at NONE, reading at READ, reading and writing at WRITE.
\<close>

definition defaultEveryoneAllows :: "NoteConfig \<Rightarrow> bool \<Rightarrow> bool" where
  "defaultEveryoneAllows cfg wantEdit =
     (case defaultEveryone cfg of
        DefaultAccessLevel_NONE \<Rightarrow> False
      | DefaultAccessLevel_READ \<Rightarrow> \<not> wantEdit
      | DefaultAccessLevel_WRITE \<Rightarrow> True)"

text \<open>Modelled from the spec: membership of a user in an ordinary group's member list.\<close>

fun isMember :: "User \<Rightarrow> User list \<Rightarrow> bool" where
  "isMember u [] = False"
| "isMember u (m # ms) = (if user_id m = user_id u then True else isMember u ms)"

text \<open>
  Modelled from the spec: whether one group grant gives the wanted access. The grant
  must be strong enough (\<open>canEdit\<close> for writing). A grant of the special group LOGGED_IN
  serves every authenticated user, a grant of the special group EVERYONE serves
  everybody within the default access level, guests only as far as the guest-access
  policy allows; a grant of an ordinary group serves its members.
\<close>

definition groupPermissionApplies ::
  "NoteConfig \<Rightarrow> User option \<Rightarrow> bool \<Rightarrow> NoteGroupPermission \<Rightarrow> bool" where
  "groupPermissionApplies cfg user wantEdit gp =
     (if canEdit gp \<or> \<not> wantEdit then
        (if special (grantee gp) then
           (user \<noteq> None \<and> group_name (grantee gp) = SpecialGroup_LOGGED_IN) \<or>
           (group_name (grantee gp) = SpecialGroup_EVERYONE \<and>
            defaultEveryoneAllows cfg wantEdit \<and>
            (user \<noteq> None \<or> guestAccessAllows cfg wantEdit))
         else (case user of None \<Rightarrow> False | Some u \<Rightarrow> isMember u (members (grantee gp))))
      else False)"

text \<open>
  Modelled from the spec: the per-group grant layer, a loop over the note's group
  permissions in stored order that returns true at the first grant that applies. Under
  the DENY policy a guest gets nothing from it.
\<close>

fun groupGrantLoop ::
  "NoteConfig \<Rightarrow> User option \<Rightarrow> bool \<Rightarrow> NoteGroupPermission list \<Rightarrow> bool" where
  "groupGrantLoop cfg user wantEdit [] = False"
| "groupGrantLoop cfg user wantEdit (gp # gps) =
     (if groupPermissionApplies cfg user wantEdit gp then True
      else groupGrantLoop cfg user wantEdit gps)"

definition hasPermissionGroup :: "NoteConfig \<Rightarrow> User option \<Rightarrow> Note \<Rightarrow> bool \<Rightarrow> bool" where
  "hasPermissionGroup cfg user note wantEdit =
     (if user = None \<and> guestAccess cfg = GuestAccess_DENY then False
      else groupGrantLoop cfg user wantEdit (groupPermissions note))"

text \<open>
  Modelled from the spec: \<open>PermissionsService.mayRead\<close> and \<open>mayWrite\<close>, the layered
  short-circuit of section 4: the owner check, then the per-user grants, then the
  per-group grants.
\<close>

definition mayRead :: "NoteConfig \<Rightarrow> User option \<Rightarrow> Note \<Rightarrow> bool" where
  "mayRead cfg user note =
     (if isOwner user note then True
      else if hasPermissionUser user note False then True
      else hasPermissionGroup cfg user note False)"

definition mayWrite :: "NoteConfig \<Rightarrow> User option \<Rightarrow> Note \<Rightarrow> bool" where
  "mayWrite cfg user note =
     (if isOwner user note then True
      else if hasPermissionUser user note True then True
      else hasPermissionGroup cfg user note True)"

text \<open>
  The claims' notions: a user holds a user grant with a given \<open>canEdit\<close> flag; a group
  covers a user (a special group covers everybody who is logged in, an ordinary group
  its members); a group is the special group EVERYONE.
\<close>

definition hasUserGrant :: "User \<Rightarrow> bool \<Rightarrow> Note \<Rightarrow> bool" where
  "hasUserGrant u e note \<longleftrightarrow>
     list_ex (\<lambda>p. user_id (grantee p) = user_id u \<and> canEdit p = e) (userPermissions note)"

definition groupCovers :: "User \<Rightarrow> Group \<Rightarrow> bool" where
  "groupCovers u g \<longleftrightarrow>
     (if special g
      then group_name g = SpecialGroup_LOGGED_IN \<or> group_name g = SpecialGroup_EVERYONE
      else list_ex (\<lambda>m. user_id m = user_id u) (members g))"

definition coveredByGroupGrant :: "User \<Rightarrow> Note \<Rightarrow> bool" where
  "coveredByGroupGrant u note \<longleftrightarrow> list_ex (\<lambda>gp. groupCovers u (grantee gp)) (groupPermissions note)"

definition isEveryoneGroup :: "Group \<Rightarrow> bool" where
  "isEveryoneGroup g \<longleftrightarrow> special g \<and> group_name g = SpecialGroup_EVERYONE"

definition hasEveryoneWriteGrant :: "Note \<Rightarrow> bool" where
  "hasEveryoneWriteGrant note \<longleftrightarrow>
     list_ex (\<lambda>gp. isEveryoneGroup (grantee gp) \<and> canEdit gp) (groupPermissions note)"

text \<open>
  Modelled from the spec: the errors of a permission update, the distinct inconsistency
  error of section 7 and the failures of the layers below, which pass through
  unchanged.
\<close>

datatype error = PermissionsUpdateInconsistentError | UnderlyingFailure string

text \<open>
  Modelled from the spec: the update request (notes/note-permissions.dto), a list of
  grants by user name and a list of grants by group name.
\<close>

record NoteUserPermissionUpdateDto =
  dto_username :: string
  dto_userCanEdit :: bool

record NoteGroupPermissionUpdateDto =
  dto_groupName :: string
  dto_groupCanEdit :: bool

record NotePermissionsUpdateDto =
  sharedToUsers :: "NoteUserPermissionUpdateDto list"
  sharedToGroups :: "NoteGroupPermissionUpdateDto list"

text \<open>
  Modelled from the spec: the duplicate check on the names of a request; a list holds
  a duplicate when it has more entries than different values.
\<close>

definition checkArrayForDuplicates :: "string list \<Rightarrow> bool" where
  "checkArrayForDuplicates xs \<longleftrightarrow> card (set xs) \<noteq> length xs"

text \<open>
  Modelled from the spec: building the new grants. Each name is looked up through the
  users or groups service (the parameters \<open>getUser\<close> and \<open>getGroup\<close>); a failed lookup
  ends the update with that failure.
\<close>

fun createUserPermissions ::
  "(string \<Rightarrow> error + User) \<Rightarrow> NoteUserPermissionUpdateDto list
     \<Rightarrow> error + NoteUserPermission list" where
  "createUserPermissions getUser [] = Inr []"
| "createUserPermissions getUser (d # ds) =
     (case getUser (dto_username d) of
        Inl err \<Rightarrow> Inl err
      | Inr u \<Rightarrow>
          (case createUserPermissions getUser ds of
             Inl err \<Rightarrow> Inl err
           | Inr ps \<Rightarrow> Inr (\<lparr>grantee = u, canEdit = dto_userCanEdit d\<rparr> # ps)))"

fun createGroupPermissions ::
  "(string \<Rightarrow> error + Group) \<Rightarrow> NoteGroupPermissionUpdateDto list
     \<Rightarrow> error + NoteGroupPermission list" where
  "createGroupPermissions getGroup [] = Inr []"
| "createGroupPermissions getGroup (d # ds) =
     (case getGroup (dto_groupName d) of
        Inl err \<Rightarrow> Inl err
      | Inr g \<Rightarrow>
          (case createGroupPermissions getGroup ds of
             Inl err \<Rightarrow> Inl err
           | Inr ps \<Rightarrow> Inr (\<lparr>grantee = g, canEdit = dto_groupCanEdit d\<rparr> # ps)))"

text \<open>
  Modelled from the spec: \<open>PermissionsService.updateNotePermissions\<close>. The request is
  checked for duplicate users and groups before anything is looked up (the tests
  expect the inconsistency error for names no lookup would find); then the note's
  grants are replaced by the new ones.
\<close>

definition updateNotePermissions ::
  "(string \<Rightarrow> error + User) \<Rightarrow> (string \<Rightarrow> error + Group) \<Rightarrow> Note
     \<Rightarrow> NotePermissionsUpdateDto \<Rightarrow> error + Note" where
  "updateNotePermissions getUser getGroup note newPermissions =
     (let users = map dto_username (sharedToUsers newPermissions);
          groups = map dto_groupName (sharedToGroups newPermissions)
      in if checkArrayForDuplicates users \<or> checkArrayForDuplicates groups
         then Inl PermissionsUpdateInconsistentError
         else
           (case createUserPermissions getUser (sharedToUsers newPermissions) of
              Inl err \<Rightarrow> Inl err
            | Inr ups \<Rightarrow>
                (case createGroupPermissions getGroup (sharedToGroups newPermissions) of
                   Inl err \<Rightarrow> Inl err
                 | Inr gps \<Rightarrow> Inr (note\<lparr>userPermissions := ups, groupPermissions := gps\<rparr>))))"

text \<open>
  The claim's notion of a request list with two grants for the same name: two
  different positions of the list hold the same name.
\<close>

definition hasDuplicateGrant :: "string list \<Rightarrow> bool" where
  "hasDuplicateGrant names \<longleftrightarrow>
     (\<exists>i < length names. \<exists>j < length names. i \<noteq> j \<and> names ! i = names ! j)"

subsection \<open>The fixtures of permissions.service.spec.ts\<close>

definition user1 :: User where
  "user1 = \<lparr>user_id = 1, username = ''user1''\<rparr>"

definition user2 :: User where
  "user2 = \<lparr>user_id = 2, username = ''user2''\<rparr>"

definition createNote :: "User \<Rightarrow> Note" where
  "createNote ow = \<lparr>owner = Some ow, userPermissions = [], groupPermissions = []\<rparr>"

definition createUserPermission :: "User \<Rightarrow> bool \<Rightarrow> NoteUserPermission" where
  "createUserPermission u e = \<lparr>grantee = u, canEdit = e\<rparr>"

definition createNoteGroupPermission :: "Group \<Rightarrow> bool \<Rightarrow> NoteGroupPermission" where
  "createNoteGroupPermission g e = \<lparr>grantee = g, canEdit = e\<rparr>"

definition everybody :: Group where
  "everybody = \<lparr>group_name = SpecialGroup_EVERYONE, special = True, members = []\<rparr>"

definition loggedIn :: Group where
  "loggedIn = \<lparr>group_name = SpecialGroup_LOGGED_IN, special = True, members = []\<rparr>"

definition user1group :: Group where
  "user1group = \<lparr>group_name = ''user1group'', special = False, members = [user1]\<rparr>"

definition user2group :: Group where
  "user2group = \<lparr>group_name = ''user2group'', special = False, members = [user2]\<rparr>"

definition noteNobodyRead :: Note where
  "noteNobodyRead = createNote user1"

definition noteUser1Read :: Note where
  "noteUser1Read = (createNote user2)\<lparr>userPermissions := [createUserPermission user1 False]\<rparr>"

definition noteUser2Write :: Note where
  "noteUser2Write = (createNote user2)\<lparr>userPermissions := [createUserPermission user1 True]\<rparr>"

definition noteUser2Read :: Note where
  "noteUser2Read = (createNote user2)\<lparr>userPermissions := [createUserPermission user2 False]\<rparr>"

definition noteEverybodyWrite :: Note where
  "noteEverybodyWrite =
     (createNote user1)\<lparr>groupPermissions := [createNoteGroupPermission everybody True]\<rparr>"

text \<open>
  A note of user2 that grants user1 reading by a user grant and every logged-in user
  writing by a group grant.
\<close>

definition noteUser1ReadLoggedInWrite :: Note where
  "noteUser1ReadLoggedInWrite =
     (createNote user2)\<lparr>userPermissions := [createUserPermission user1 False],
                         groupPermissions := [createNoteGroupPermission loggedIn True]\<rparr>"

definition noteMockConfig :: "GuestAccess \<Rightarrow> NoteConfig" where
  "noteMockConfig g =
     \<lparr>guestAccess = g, defaultEveryone = DefaultAccessLevel_WRITE,
      defaultLoggedIn = DefaultAccessLevel_WRITE\<rparr>"

text \<open>
  The update requests of the tests of \<open>updateNotePermissions\<close>, and a lookup that finds
  nothing (the mocked repositories of the failing tests).
\<close>

definition userPermissionUpdate :: NoteUserPermissionUpdateDto where
  "userPermissionUpdate = \<lparr>dto_username = ''hardcoded'', dto_userCanEdit = True\<rparr>"

definition groupPermissionUpdate :: NoteGroupPermissionUpdateDto where
  "groupPermissionUpdate = \<lparr>dto_groupName = ''testGroup'', dto_groupCanEdit = False\<rparr>"

definition lookupFails :: "string \<Rightarrow> error + 'a" where
  "lookupFails name = Inl (UnderlyingFailure name)"

section \<open>Properties of the history reducers\<close>

lemma count_list_filter_keep:
  "P e \<Longrightarrow> count_list (filter P xs) e = count_list xs e"
  by (induction xs) auto

lemma subseq_count_list_le:
  "subseq xs ys \<Longrightarrow> count_list xs a \<le> count_list ys a"
  by (induction rule: list_emb.induct) auto

lemma removedAll_filter:
  "removedAll n state (filter (\<lambda>entry. entry_identifier entry \<noteq> n) state)"
  unfolding removedAll_def
  by (simp add: count_list_filter_keep)

text \<open>
  The three properties of \<open>removedAll\<close> determine the result: a subsequence of the
  state that drops every entry with the identifier and keeps every other one is the
  filtered list.
\<close>

lemma removedAll_unique:
  "removedAll n state res \<Longrightarrow> res = filter (\<lambda>entry. entry_identifier entry \<noteq> n) state"
proof (induction state arbitrary: res)
  case Nil
  then show ?case by (auto simp: removedAll_def)
next
  case (Cons a state)
  show ?case
  proof (cases "entry_identifier a = n")
    case True
    have sub: "subseq res (a # state)" and no: "\<forall>e \<in> set res. entry_identifier e \<noteq> n"
      and cnt: "\<forall>e. entry_identifier e \<noteq> n \<longrightarrow> count_list res e = count_list (a # state) e"
      using Cons.prems by (auto simp: removedAll_def)
    have "subseq res state"
    proof (cases res)
      case Nil
      then show ?thesis by simp
    next
      case (Cons r rs)
      with no True have "r \<noteq> a" by auto
      with sub Cons show ?thesis by (simp add: subseq_Cons2_neq)
    qed
    moreover have "\<forall>e. entry_identifier e \<noteq> n \<longrightarrow> count_list res e = count_list state e"
      using cnt True by auto
    ultimately have "removedAll n state res"
      using no by (simp add: removedAll_def)
    from Cons.IH [OF this] True show ?thesis by simp
  next
    case False
    have sub: "subseq res (a # state)" and no: "\<forall>e \<in> set res. entry_identifier e \<noteq> n"
      and cnt: "\<forall>e. entry_identifier e \<noteq> n \<longrightarrow> count_list res e = count_list (a # state) e"
      using Cons.prems by (auto simp: removedAll_def)
    show ?thesis
    proof (cases res)
      case Nil
      with cnt False have "count_list (a # state) a = 0" by (metis count_list.simps(1))
      then show ?thesis by simp
    next
      case (Cons r rs)
      show ?thesis
      proof (cases "r = a")
        case True
        with sub Cons have s2: "subseq rs state" by simp
        have "\<forall>e. entry_identifier e \<noteq> n \<longrightarrow> count_list rs e = count_list state e"
          using cnt Cons True by (auto split: if_splits)
        with s2 no Cons have "removedAll n state rs" by (simp add: removedAll_def)
        from Cons.IH [OF this] False True Cons show ?thesis by simp
      next
        case neq: False
        with sub Cons have s2: "subseq res state" by (simp add: subseq_Cons2_neq)
        then have "count_list res a \<le> count_list state a"
          by (rule subseq_count_list_le)
        moreover have "count_list res a = count_list (a # state) a" using cnt False by blast
        ultimately show ?thesis by simp
      qed
    qed
  qed
qed

text \<open>
  C8: updateEntry returns the state with every entry of the payload's noteId removed,
  the other entries kept in their relative order, and newEntry appended at the end;
  removeEntry returns the same list without the appended entry. The removal is stated
  through \<open>removedAll\<close>, which has exactly one solution.
\<close>

theorem updateEntry_removeEntry_spec:
  "(\<exists>kept. updateEntry state p = kept @ [newEntry p] \<and> removedAll (noteId p) state kept \<and>
       (\<forall>res. removedAll (noteId p) state res \<longrightarrow> res = kept)) \<and>
   removedAll (removeNoteId q) state (removeEntry state q) \<and>
   (\<forall>res. removedAll (removeNoteId q) state res \<longrightarrow> res = removeEntry state q)"
  unfolding updateEntry_def removeEntry_def
  using removedAll_filter removedAll_unique by blast

theorem updateEntry_removeEntry_spec_witness:
  "removedAll ''a''
     [\<lparr>entry_identifier = ''a'', entryData = (1::nat)\<rparr>,
      \<lparr>entry_identifier = ''b'', entryData = 2\<rparr>,
      \<lparr>entry_identifier = ''a'', entryData = 3\<rparr>]
     [\<lparr>entry_identifier = ''b'', entryData = 2\<rparr>] \<and>
   updateEntry
     [\<lparr>entry_identifier = ''a'', entryData = (1::nat)\<rparr>,
      \<lparr>entry_identifier = ''b'', entryData = 2\<rparr>,
      \<lparr>entry_identifier = ''a'', entryData = 3\<rparr>]
     \<lparr>noteId = ''a'', newEntry = \<lparr>entry_identifier = ''a'', entryData = 4\<rparr>\<rparr>
   = [\<lparr>entry_identifier = ''b'', entryData = 2\<rparr>, \<lparr>entry_identifier = ''a'', entryData = 4\<rparr>]"
proof -
  let ?S = "[\<lparr>entry_identifier = ''a'', entryData = (1::nat)\<rparr>,
             \<lparr>entry_identifier = ''b'', entryData = 2\<rparr>,
             \<lparr>entry_identifier = ''a'', entryData = 3\<rparr>]"
  let ?p = "\<lparr>noteId = ''a'', newEntry = \<lparr>entry_identifier = ''a'', entryData = (4::nat)\<rparr>\<rparr>"
  have h: "removedAll ''a'' ?S [\<lparr>entry_identifier = ''b'', entryData = 2\<rparr>]"
    by (auto simp: removedAll_def)
  from updateEntry_removeEntry_spec [of ?S ?p "\<lparr>removeNoteId = ''a''\<rparr>"] h
  show ?thesis by auto
qed

section \<open>Properties of the authorship decorations\<close>

subsection \<open>The host's update with a filter and nothing to add\<close>

text \<open>
  On a set with well-formed layers an update that only filters keeps every range the
  callback keeps, in its layer. When the callback drops exactly the first range it is
  asked about and keeps the others, the result is the set without that range.
\<close>

lemma addInner_apart:
  "sorted_wrt apart (b @ [r]) \<Longrightarrow> addInner r b = Inr (Some (b @ [r]))"
  by (cases b rule: rev_cases) (auto simp: addInner_def sorted_wrt_append)

lemma addToLayer_apart:
  "sorted_wrt apart (b @ [r]) \<Longrightarrow> addToLayer r (b, sp) = Inr (b @ [r], sp)"
  by (simp add: addToLayer_def addInner_apart)

lemma layerLoop_keep:
  assumes "\<forall>r \<in> set l. filterApplies ff ft r \<longrightarrow> cb r st = (st, Inr True)"
    and "sorted_wrt apart (b @ l)"
  shows "layerLoop (Some cb) ff ft l [] (b, sp) st = (st, Inr (b @ l, sp))"
  using assms
proof (induction l arbitrary: b)
  case Nil
  then show ?case by simp
next
  case (Cons r rs)
  have s1: "sorted_wrt apart (b @ [r])" and s2: "sorted_wrt apart ((b @ [r]) @ rs)"
    using Cons.prems(2) by (auto simp: sorted_wrt_append)
  have keep: "(if filterApplies ff ft r then cb r st else (st, Inr True)) = (st, Inr True)"
    using Cons.prems(1) by simp
  have "layerLoop (Some cb) ff ft rs [] (b @ [r], sp) st = (st, Inr ((b @ [r]) @ rs, sp))"
    using Cons.prems(1) s2 by (intro Cons.IH) auto
  then show ?case
    by (simp add: keep addToLayer_apart [OF s1])
qed

lemma find_remove1:
  "find P l = Some d \<Longrightarrow> \<exists>pre post. l = pre @ d # post \<and> remove1 d l = pre @ post \<and>
      (\<forall>p \<in> set pre. \<not> P p) \<and> P d"
proof (induction l)
  case Nil
  then show ?case by simp
next
  case (Cons a l)
  show ?case
  proof (cases "P a")
    case True
    with Cons.prems have "a = d" by simp
    with True show ?thesis by (intro exI [of _ "[]"] exI [of _ l]) simp
  next
    case False
    with Cons.prems have f: "find P l = Some d" by simp
    from Cons.IH [OF f] obtain pre post where
      l: "l = pre @ d # post" and r: "remove1 d l = pre @ post"
      and n: "\<forall>p \<in> set pre. \<not> P p" and d: "P d" by blast
    from False d have "a \<noteq> d" by auto
    with l r n d False show ?thesis
      by (intro exI [of _ "a # pre"] exI [of _ post]) auto
  qed
qed

lemma layerLoop_skip:
  assumes "\<forall>p \<in> set pre. \<not> filterApplies ff ft p"
    and "sorted_wrt apart (b @ pre)"
  shows "layerLoop (Some cb) ff ft (pre @ rest) [] (b, sp) st =
         layerLoop (Some cb) ff ft rest [] (b @ pre, sp) st"
  using assms
proof (induction pre arbitrary: b)
  case Nil
  then show ?case by simp
next
  case (Cons r rs)
  have s1: "sorted_wrt apart (b @ [r])" and s2: "sorted_wrt apart ((b @ [r]) @ rs)"
    using Cons.prems(2) by (auto simp: sorted_wrt_append)
  have "layerLoop (Some cb) ff ft (rs @ rest) [] (b @ [r], sp) st =
        layerLoop (Some cb) ff ft rest [] ((b @ [r]) @ rs, sp) st"
    using Cons.prems(1) s2 by (intro Cons.IH) auto
  moreover have "\<not> filterApplies ff ft r" using Cons.prems(1) by simp
  ultimately show ?case
    by (cases rest) (simp_all add: addToLayer_apart [OF s1])
qed

lemma layerLoop_removed:
  assumes f: "find (filterApplies ff ft) l = Some d"
    and cb: "cb d st = (st1, Inr False)"
    and after: "\<forall>r. cb r st1 = (st1, Inr True)"
    and sorted: "sorted_wrt apart l"
  shows "layerLoop (Some cb) ff ft l [] ([], []) st = (st1, Inr (remove1 d l, []))"
proof -
  from find_remove1 [OF f] obtain pre post where
    l: "l = pre @ d # post" and r: "remove1 d l = pre @ post"
    and n: "\<forall>p \<in> set pre. \<not> filterApplies ff ft p" and d: "filterApplies ff ft d" by blast
  have sp: "sorted_wrt apart ([] @ pre)" and spp: "sorted_wrt apart (pre @ post)"
    using sorted l by (auto simp: sorted_wrt_append)
  have "layerLoop (Some cb) ff ft (pre @ d # post) [] ([], []) st =
        layerLoop (Some cb) ff ft (d # post) [] ([] @ pre, []) st"
    by (rule layerLoop_skip [OF n sp])
  also have "\<dots> = layerLoop (Some cb) ff ft post [] (pre, []) st1"
    using d cb by simp
  also have "\<dots> = (st1, Inr (pre @ post, []))"
    using after spp by (intro layerLoop_keep) auto
  finally show ?thesis using l r by simp
qed

lemma layerLoop_error:
  assumes f: "find (filterApplies ff ft) l = Some d"
    and cb: "cb d st = (st1, Inl err)"
    and sorted: "sorted_wrt apart l"
  shows "layerLoop (Some cb) ff ft l [] ([], []) st = (st1, Inl err)"
proof -
  from find_remove1 [OF f] obtain pre post where
    l: "l = pre @ d # post"
    and n: "\<forall>p \<in> set pre. \<not> filterApplies ff ft p" and d: "filterApplies ff ft d" by blast
  have sp: "sorted_wrt apart ([] @ pre)"
    using sorted l by (auto simp: sorted_wrt_append)
  have "layerLoop (Some cb) ff ft (pre @ d # post) [] ([], []) st =
        layerLoop (Some cb) ff ft (d # post) [] ([] @ pre, []) st"
    by (rule layerLoop_skip [OF n sp])
  also have "\<dots> = (st1, Inl err)"
    using d cb by simp
  finally show ?thesis using l by simp
qed

lemma wellFormedLayer_apart: "wellFormedLayer l \<Longrightarrow> sorted_wrt apart l"
  by (simp add: wellFormedLayer_def)

lemma sorted_wrt_remove1_any:
  "sorted_wrt P xs \<Longrightarrow> sorted_wrt P (remove1 d xs)"
  by (induction xs) (auto dest: notin_set_remove1)

lemma wellFormedLayer_remove1:
  "wellFormedLayer l \<Longrightarrow> remove1 d l \<noteq> [] \<Longrightarrow> wellFormedLayer (remove1 d l)"
  unfolding wellFormedLayer_def list_all_iff
  by (auto intro: sorted_wrt_remove1_any dest: notin_set_remove1)

lemma rangeSetUpdate_keep:
  assumes "\<forall>r \<in> set (concat ds). filterApplies ff ft r \<longrightarrow> cb r st = (st, Inr True)"
    and "list_all wellFormedLayer ds"
  shows "rangeSetUpdate (Some cb) ff ft [] ds st = (st, Inr ds)"
  using assms
proof (induction ds)
  case Nil
  then show ?case by simp
next
  case (Cons l ls)
  have wl: "wellFormedLayer l" and wls: "list_all wellFormedLayer ls"
    using Cons.prems(2) by (simp_all add: list.pred_inject)
  have loop: "layerLoop (Some cb) ff ft l [] ([], []) st = (st, Inr ([] @ l, []))"
    using Cons.prems(1) wellFormedLayer_apart [OF wl] by (intro layerLoop_keep) auto
  have nxt: "rangeSetUpdate (Some cb) ff ft [] ls st = (st, Inr ls)"
    using Cons.prems(1) wls by (intro Cons.IH) auto
  have "l \<noteq> []" using wl by (simp add: wellFormedLayer_def)
  then show ?case using loop nxt by simp
qed

lemma find_append_cases:
  "find P (xs @ ys) = (case find P xs of None \<Rightarrow> find P ys | Some x \<Rightarrow> Some x)"
  by (induction xs) auto

lemma find_None_all: "find P xs = None \<Longrightarrow> \<forall>x \<in> set xs. \<not> P x"
  by (simp add: find_None_iff)

lemma find_Some_mem: "find P xs = Some d \<Longrightarrow> d \<in> set xs \<and> P d"
  by (auto simp: find_Some_iff)

lemma rangeSetUpdate_removed:
  assumes "find (filterApplies ff ft) (concat ds) = Some d"
    and cb: "cb d st = (st1, Inr False)"
    and after: "\<forall>r. cb r st1 = (st1, Inr True)"
    and "list_all wellFormedLayer ds"
  shows "\<exists>kept. rangeSetUpdate (Some cb) ff ft [] ds st = (st1, Inr kept) \<and> list_all wellFormedLayer kept \<and>
           mset (concat kept) = mset (concat ds) - {#d#}"
  using assms(1,4)
proof (induction ds)
  case Nil
  then show ?case by simp
next
  case (Cons l ls)
  have wl: "wellFormedLayer l" and wls: "list_all wellFormedLayer ls"
    using Cons.prems(2) by (simp_all add: list.pred_inject)
  have ne: "l \<noteq> []" using wl by (simp add: wellFormedLayer_def)
  show ?case
  proof (cases "find (filterApplies ff ft) l")
    case None
    then have rest: "find (filterApplies ff ft) (concat ls) = Some d"
      using Cons.prems(1) by (simp add: find_append_cases)
    from Cons.IH [OF rest wls] obtain kept where
      k: "rangeSetUpdate (Some cb) ff ft [] ls st = (st1, Inr kept)" and wk: "list_all wellFormedLayer kept"
      and mk: "mset (concat kept) = mset (concat ls) - {#d#}" by blast
    have loop: "layerLoop (Some cb) ff ft l [] ([], []) st = (st, Inr ([] @ l, []))"
      using find_None_all [OF None] wellFormedLayer_apart [OF wl] by (intro layerLoop_keep) auto
    have lsne: "ls \<noteq> []" using rest by auto
    have "rangeSetUpdate (Some cb) ff ft [] (l # ls) st = (st1, Inr (l # kept))"
      using loop k ne lsne by simp
    moreover have "list_all wellFormedLayer (l # kept)" using wl wk by (simp add: list.pred_inject)
    moreover have "d \<in># mset (concat ls)" using find_Some_mem [OF rest] by simp
    then have "mset (concat (l # kept)) = mset (concat (l # ls)) - {#d#}"
      using mk by simp
    ultimately show ?thesis by blast
  next
    case (Some d')
    then have dd: "d' = d" using Cons.prems(1) by (simp add: find_append_cases)
    have loop: "layerLoop (Some cb) ff ft l [] ([], []) st = (st1, Inr (remove1 d l, []))"
      using Some dd cb after wellFormedLayer_apart [OF wl] by (intro layerLoop_removed) auto
    have nxt: "rangeSetUpdate (Some cb) ff ft [] ls st1 = (st1, Inr ls)"
      using after wls by (intro rangeSetUpdate_keep) auto
    let ?kept = "if remove1 d l = [] then ls else remove1 d l # ls"
    have "rangeSetUpdate (Some cb) ff ft [] (l # ls) st = (st1, Inr ?kept)"
      using loop nxt by (cases ls) auto
    moreover have "list_all wellFormedLayer ?kept"
      using wellFormedLayer_remove1 [OF wl] wls by (simp add: list.pred_inject)
    moreover have "d \<in> set l" using Some dd find_Some_mem by fastforce
    then have "d \<in># mset l" by simp
    then obtain A where A: "mset l = add_mset d A" by (rule multi_member_split [THEN exE])
    have "mset (remove1 d l) + mset (concat ls) = mset (concat (l # ls)) - {#d#}"
      by (simp add: A)
    then have "mset (concat ?kept) = mset (concat (l # ls)) - {#d#}"
      by (cases "remove1 d l = []") simp_all
    ultimately show ?thesis by blast
  qed
qed

lemma rangeSetUpdate_error:
  assumes "find (filterApplies ff ft) (concat ds) = Some d"
    and cb: "cb d st = (st1, Inl err)"
    and "list_all wellFormedLayer ds"
  shows "rangeSetUpdate (Some cb) ff ft [] ds st = (st1, Inl err)"
  using assms(1,3)
proof (induction ds)
  case Nil
  then show ?case by simp
next
  case (Cons l ls)
  have wl: "wellFormedLayer l" and wls: "list_all wellFormedLayer ls"
    using Cons.prems(2) by (simp_all add: list.pred_inject)
  have ne: "l \<noteq> []" using wl by (simp add: wellFormedLayer_def)
  show ?case
  proof (cases "find (filterApplies ff ft) l")
    case None
    then have rest: "find (filterApplies ff ft) (concat ls) = Some d"
      using Cons.prems(1) by (simp add: find_append_cases)
    have loop: "layerLoop (Some cb) ff ft l [] ([], []) st = (st, Inr ([] @ l, []))"
      using find_None_all [OF None] wellFormedLayer_apart [OF wl] by (intro layerLoop_keep) auto
    have lsne: "ls \<noteq> []" using rest by auto
    show ?thesis using loop Cons.IH [OF rest wls] ne lsne by simp
  next
    case (Some d')
    then have dd: "d' = d" using Cons.prems(1) by (simp add: find_append_cases)
    have "layerLoop (Some cb) ff ft l [] ([], []) st = (st1, Inl err)"
      using Some dd cb wellFormedLayer_apart [OF wl] by (intro layerLoop_error) auto
    then show ?thesis by simp
  qed
qed

subsection \<open>The host's update with ranges to add and no filter\<close>

text \<open>
  Adding non-empty marks that are ordered by their start to a set with well-formed
  layers does not throw, gives well-formed layers, and yields the ranges of the set
  together with the added ones; which layer each of them ends up in depends on the
  overlaps.
\<close>

lemma apart_snoc:
  assumes "sorted_wrt apart b" "list_all goodMark b" "b \<noteq> []" "range_to (last b) \<le> range_from r"
  shows "sorted_wrt apart (b @ [r])"
proof -
  have "range_to y \<le> range_from r" if "y \<in> set b" for y
  proof (cases "y = last b")
    case True
    then show ?thesis using assms(4) by simp
  next
    case False
    obtain xs where b: "b = xs @ [last b]" using assms(3) by (metis append_butlast_last_id)
    with that False have "y \<in> set xs" by (metis Un_iff empty_iff insert_iff list.set(1) list.set(2) set_append)
    with assms(1) b have "range_to y \<le> range_from (last b)"
      by (metis sorted_wrt_append list.set_intros(1))
    moreover have "goodMark (last b)" using assms(2,3) by (simp add: list_all_iff)
    ultimately show ?thesis using assms(4) by (simp add: goodMark_def)
  qed
  with assms(1) show ?thesis by (simp add: sorted_wrt_append)
qed

lemma addToLayer_cases:
  assumes "sorted_wrt apart (fst bs)" "list_all goodMark (fst bs)"
    and "\<forall>y \<in> set (fst bs). range_from y \<le> range_from r"
  shows "(addToLayer r bs = Inr (fst bs @ [r], snd bs) \<and> sorted_wrt apart (fst bs @ [r])) \<or>
         addToLayer r bs = Inr (fst bs, snd bs @ [r])"
proof (cases "fst bs = []")
  case True
  then show ?thesis by (simp add: addToLayer_def addInner_def)
next
  case False
  then have l: "last (fst bs) \<in> set (fst bs)" by simp
  show ?thesis
  proof (cases "range_from r < range_to (last (fst bs))")
    case True
    moreover have "\<not> range_from r < range_from (last (fst bs))" using assms(3) l by force
    ultimately show ?thesis using False by (simp add: addToLayer_def addInner_def)
  next
    case nov: False
    then have "sorted_wrt apart (fst bs @ [r])"
      using assms(1,2) False by (intro apart_snoc) auto
    then show ?thesis using False nov by (simp add: addToLayer_def addInner_def)
  qed
qed

lemma loopInv_add:
  assumes inv: "loopInv l (a # as) bs"
    and first: "l = [] \<or> range_from a \<le> range_from (hd l)"
  shows "\<exists>bs'. addToLayer a bs = Inr bs' \<and> loopInv l as bs' \<and>
           mset (fst bs') + mset (snd bs') = mset (fst bs) + mset (snd bs) + {#a#}"
proof -
  have le: "\<forall>x \<in> set l \<union> set as. range_from a \<le> range_from x"
  proof
    fix x assume "x \<in> set l \<union> set as"
    then show "range_from a \<le> range_from x"
    proof
      assume x: "x \<in> set l"
      then have "l \<noteq> []" by auto
      with first have h: "range_from a \<le> range_from (hd l)" by simp
      from x \<open>l \<noteq> []\<close> inv have "range_from (hd l) \<le> range_from x"
        by (cases l) (auto simp: loopInv_def)
      with h show ?thesis by simp
    next
      assume "x \<in> set as"
      with inv show ?thesis by (auto simp: loopInv_def)
    qed
  qed
  have c: "(addToLayer a bs = Inr (fst bs @ [a], snd bs) \<and> sorted_wrt apart (fst bs @ [a])) \<or>
           addToLayer a bs = Inr (fst bs, snd bs @ [a])"
    using inv by (intro addToLayer_cases) (auto simp: loopInv_def)
  then show ?thesis
  proof
    assume h: "addToLayer a bs = Inr (fst bs @ [a], snd bs) \<and> sorted_wrt apart (fst bs @ [a])"
    have "loopInv l as (fst bs @ [a], snd bs)"
      using inv le h by (auto simp: loopInv_def)
    with h show ?thesis by auto
  next
    assume h: "addToLayer a bs = Inr (fst bs, snd bs @ [a])"
    have "loopInv l as (fst bs, snd bs @ [a])"
      using inv le by (auto simp: loopInv_def sorted_wrt_append)
    with h show ?thesis by auto
  qed
qed

lemma loopInv_cur:
  assumes inv: "loopInv (r # rs) add bs"
    and first: "add = [] \<or> range_from r < range_from (hd add)"
  shows "\<exists>bs'. addToLayer r bs = Inr bs' \<and> loopInv rs add bs' \<and>
           mset (fst bs') + mset (snd bs') = mset (fst bs) + mset (snd bs) + {#r#}"
proof -
  have le: "\<forall>x \<in> set rs \<union> set add. range_from r \<le> range_from x"
  proof
    fix x assume "x \<in> set rs \<union> set add"
    then show "range_from r \<le> range_from x"
    proof
      assume "x \<in> set rs"
      with inv show ?thesis by (auto simp: loopInv_def)
    next
      assume x: "x \<in> set add"
      then have "add \<noteq> []" by auto
      with first have h: "range_from r < range_from (hd add)" by simp
      from x \<open>add \<noteq> []\<close> inv have "range_from (hd add) \<le> range_from x"
        by (cases add) (auto simp: loopInv_def)
      with h show ?thesis by simp
    qed
  qed
  have c: "(addToLayer r bs = Inr (fst bs @ [r], snd bs) \<and> sorted_wrt apart (fst bs @ [r])) \<or>
           addToLayer r bs = Inr (fst bs, snd bs @ [r])"
    using inv by (intro addToLayer_cases) (auto simp: loopInv_def)
  then show ?thesis
  proof
    assume h: "addToLayer r bs = Inr (fst bs @ [r], snd bs) \<and> sorted_wrt apart (fst bs @ [r])"
    have "loopInv rs add (fst bs @ [r], snd bs)"
      using inv le h by (auto simp: loopInv_def)
    with h show ?thesis by auto
  next
    assume h: "addToLayer r bs = Inr (fst bs, snd bs @ [r])"
    have "loopInv rs add (fst bs, snd bs @ [r])"
      using inv le by (auto simp: loopInv_def sorted_wrt_append)
    with h show ?thesis by auto
  qed
qed

lemma layerLoop_add_aux:
  "cb = None \<Longrightarrow> loopInv l add bs \<Longrightarrow>
   \<exists>res. layerLoop cb ff ft l add bs st = (st, Inr res) \<and> loopPost l add bs res"
proof (induction cb ff ft l add bs st rule: layerLoop.induct)
  case (1 cb ff ft bs st)
  then show ?case by (simp add: loopInv_def loopPost_def)
next
  case (2 cb ff ft a as bs st)
  have "[] = [] \<or> range_from a \<le> range_from (hd ([] :: Layer))" by simp
  from loopInv_add [OF "2.prems"(2) this] obtain bs' where
    a: "addToLayer a bs = Inr bs'" and i: "loopInv [] as bs'"
    and m: "mset (fst bs') + mset (snd bs') = mset (fst bs) + mset (snd bs) + {#a#}" by auto
  from "2.IH" [OF a "2.prems"(1) i] obtain res where
    "layerLoop cb ff ft [] as bs' st = (st, Inr res)" and "loopPost [] as bs' res" by blast
  then show ?case using a m by (auto simp: loopPost_def)
next
  case (3 cb ff ft r rs bs st)
  have "[] = [] \<or> range_from r < range_from (hd ([] :: Layer))" by simp
  from loopInv_cur [OF "3.prems"(2) this] obtain bs' where
    a: "addToLayer r bs = Inr bs'" and i: "loopInv rs [] bs'"
    and m: "mset (fst bs') + mset (snd bs') = mset (fst bs) + mset (snd bs) + {#r#}" by auto
  have "\<exists>res. layerLoop cb ff ft rs [] bs' st = (st, Inr res) \<and> loopPost rs [] bs' res"
    using a i "3.prems"(1) by (intro "3.IH"(1)) auto
  then obtain res where
    "layerLoop cb ff ft rs [] bs' st = (st, Inr res)" and "loopPost rs [] bs' res" by blast
  then show ?case using a m "3.prems"(1) by (auto simp: loopPost_def)
next
  case (4 cb ff ft r rs a as bs st)
  show ?case
  proof (cases "range_from r - range_from a \<ge> 0")
    case True
    then have "r # rs = [] \<or> range_from a \<le> range_from (hd (r # rs))" by simp
    from loopInv_add [OF "4.prems"(2) this] obtain bs' where
      a: "addToLayer a bs = Inr bs'" and i: "loopInv (r # rs) as bs'"
      and m: "mset (fst bs') + mset (snd bs') = mset (fst bs) + mset (snd bs) + {#a#}" by auto
    from "4.IH"(1) [OF True a "4.prems"(1) i] obtain res where
      "layerLoop cb ff ft (r # rs) as bs' st = (st, Inr res)"
      and "loopPost (r # rs) as bs' res" by blast
    then show ?thesis using True a m by (auto simp: loopPost_def)
  next
    case False
    then have "a # as = [] \<or> range_from r < range_from (hd (a # as))" by simp
    from loopInv_cur [OF "4.prems"(2) this] obtain bs' where
      a: "addToLayer r bs = Inr bs'" and i: "loopInv rs (a # as) bs'"
      and m: "mset (fst bs') + mset (snd bs') = mset (fst bs) + mset (snd bs) + {#r#}" by auto
    have "\<exists>res. layerLoop cb ff ft rs (a # as) bs' st = (st, Inr res) \<and>
                loopPost rs (a # as) bs' res"
      using False a i "4.prems"(1) by (intro "4.IH"(2)) auto
    then obtain res where
      "layerLoop cb ff ft rs (a # as) bs' st = (st, Inr res)"
      and "loopPost rs (a # as) bs' res" by blast
    then show ?thesis using False a m "4.prems"(1) by (auto simp: loopPost_def)
  qed
qed

lemma layerLoop_add:
  "loopInv l add bs \<Longrightarrow>
   \<exists>res. layerLoop None ff ft l add bs st = (st, Inr res) \<and> loopPost l add bs res"
  by (rule layerLoop_add_aux) simp_all

lemma wellFormedLayer_fromOrdered:
  assumes "sorted_wrt apart l" "list_all goodMark l"
  shows "sorted_wrt fromOrdered l"
proof (rule sorted_wrt_mono_rel [OF _ assms(1)])
  fix x y assume "x \<in> set l" "y \<in> set l" "apart x y"
  with assms(2) show "fromOrdered x y" by (auto simp: list_all_iff goodMark_def)
qed

lemma builderAdd_ok:
  assumes "list_all wellFormedLayer bs" "goodMark r"
    and "\<forall>y \<in> set (concat bs). range_from y \<le> range_from r"
  shows "\<exists>bs'. builderAdd r bs = Inr bs' \<and> list_all wellFormedLayer bs' \<and>
           mset (concat bs') = mset (concat bs) + {#r#}"
  using assms
proof (induction bs)
  case Nil
  then show ?case by (simp add: wellFormedLayer_def)
next
  case (Cons b bs)
  have wb: "wellFormedLayer b" and wbs: "list_all wellFormedLayer bs"
    using Cons.prems(1) by simp_all
  have c: "(addToLayer r (b, []) = Inr (fst (b, []) @ [r], snd (b, [])) \<and>
            sorted_wrt apart (fst (b, []) @ [r])) \<or>
           addToLayer r (b, []) = Inr (fst (b, []), snd (b, []) @ [r])"
    using addToLayer_cases [of "(b, [])" r] wb Cons.prems(3)
    by (auto simp: wellFormedLayer_def)
  then show ?case
  proof
    assume "addToLayer r (b, []) = Inr (fst (b, []) @ [r], snd (b, [])) \<and>
            sorted_wrt apart (fst (b, []) @ [r])"
    then have a: "addInner r b = Inr (Some (b @ [r]))" and s: "sorted_wrt apart (b @ [r])"
      by (auto simp: addToLayer_def split: sum.splits option.splits)
    have "wellFormedLayer (b @ [r])"
      using wb s Cons.prems(2) by (simp add: wellFormedLayer_def)
    with a wbs show ?thesis by simp
  next
    assume "addToLayer r (b, []) = Inr (fst (b, []), snd (b, []) @ [r])"
    then have a: "addInner r b = Inr None"
      by (auto simp: addToLayer_def split: sum.splits option.splits)
    from Cons.IH [OF wbs Cons.prems(2)] Cons.prems(3) obtain bs' where
      "builderAdd r bs = Inr bs'" "list_all wellFormedLayer bs'"
      "mset (concat bs') = mset (concat bs) + {#r#}" by auto
    with a wb show ?thesis by simp
  qed
qed

lemma builderAddAll_ok:
  assumes "list_all wellFormedLayer bs" "list_all goodMark add" "sorted_wrt fromOrdered add"
    and "\<forall>y \<in> set (concat bs). \<forall>x \<in> set add. range_from y \<le> range_from x"
  shows "\<exists>res. builderAddAll add bs = Inr res \<and> list_all wellFormedLayer res \<and>
           mset (concat res) = mset (concat bs) + mset add"
  using assms
proof (induction add arbitrary: bs)
  case Nil
  then show ?case by simp
next
  case (Cons a as)
  have "\<exists>bs'. builderAdd a bs = Inr bs' \<and> list_all wellFormedLayer bs' \<and>
           mset (concat bs') = mset (concat bs) + {#a#}"
    using Cons.prems by (intro builderAdd_ok) auto
  then obtain bs' where b: "builderAdd a bs = Inr bs'" and w: "list_all wellFormedLayer bs'"
    and m: "mset (concat bs') = mset (concat bs) + {#a#}" by blast
  have "set (concat bs') = set (concat bs) \<union> {a}"
    using m by (metis mset_eq_setD set_append list.set(1) list.set(2) mset_append mset.simps
        Un_commute sup_bot.right_neutral set_mset_mset set_mset_union set_mset_add_mset_insert
        set_mset_empty insert_is_Un)
  then have "\<forall>y \<in> set (concat bs'). \<forall>x \<in> set as. range_from y \<le> range_from x"
    using Cons.prems(3,4) by auto
  from Cons.IH [OF w _ _ this] Cons.prems(2,3) obtain res where
    "builderAddAll as bs' = Inr res" "list_all wellFormedLayer res"
    "mset (concat res) = mset (concat bs') + mset as" by auto
  with b m show ?case by simp
qed

lemma rangeSetUpdate_add:
  assumes "list_all wellFormedLayer ds" "list_all goodMark add" "sorted_wrt fromOrdered add"
  shows "\<exists>res. rangeSetUpdate None ff ft add ds st = (st, Inr res) \<and> list_all wellFormedLayer res \<and>
           mset (concat res) = mset (concat ds) + mset add"
  using assms
proof (induction ds arbitrary: add)
  case Nil
  show ?case
  proof (cases "add = []")
    case True
    then show ?thesis by simp
  next
    case False
    from builderAddAll_ok [of "[]" add] Nil.prems obtain res where
      "builderAddAll add [] = Inr res" "list_all wellFormedLayer res"
      "mset (concat res) = mset add" by auto
    then show ?thesis using False by (simp add: rangeSetOf_def)
  qed
next
  case (Cons l ls)
  have wl: "wellFormedLayer l" and wls: "list_all wellFormedLayer ls"
    using Cons.prems(1) by (simp_all add: list.pred_inject)
  show ?case
  proof (cases "add = []")
    case True
    then show ?thesis using Cons.prems(1) by simp
  next
    case False
    have "loopInv l add ([], [])"
      using wl Cons.prems(2,3) wellFormedLayer_fromOrdered [of l]
      by (simp add: loopInv_def wellFormedLayer_def)
    from layerLoop_add [OF this, of ff ft st] obtain b sp where
      loop: "layerLoop None ff ft l add ([], []) st = (st, Inr (b, sp))"
      and post: "loopPost l add ([], []) (b, sp)" by force
    have nxt: "\<exists>next. (if ls = [] \<and> sp = [] then (st, Inr [])
                       else rangeSetUpdate None ff ft sp ls st) = (st, Inr next) \<and>
                 list_all wellFormedLayer next \<and> mset (concat next) = mset (concat ls) + mset sp"
    proof (cases "ls = [] \<and> sp = []")
      case True
      then show ?thesis by simp
    next
      case False
      have "\<exists>res. rangeSetUpdate None ff ft sp ls st = (st, Inr res) \<and> list_all wellFormedLayer res \<and>
           mset (concat res) = mset (concat ls) + mset sp"
        using wls post by (intro Cons.IH) (auto simp: loopPost_def)
      with False show ?thesis by auto
    qed
    then obtain n where
      n: "(if ls = [] \<and> sp = [] then (st, Inr [])
           else rangeSetUpdate None ff ft sp ls st) = (st, Inr n)"
      and wn: "list_all wellFormedLayer n" and mn: "mset (concat n) = mset (concat ls) + mset sp" by blast
    let ?res = "if b = [] then n else b # n"
    have "rangeSetUpdate None ff ft add (l # ls) st = (st, Inr ?res)"
      using False loop n by simp
    moreover have "list_all wellFormedLayer ?res"
      using wn post by (auto simp: list.pred_inject wellFormedLayer_def loopPost_def)
    moreover have "mset (concat ?res) = mset (concat (l # ls)) + mset add"
      using mn post by (auto simp: loopPost_def ac_simps)
    ultimately show ?thesis by blast
  qed
qed

subsection \<open>The filter callback\<close>

lemma pushMark_ok:
  assumes "f < t"
  shows "\<exists>st1 m. pushMark f t u st = (st1, Inr ()) \<and>
       addedDecorations st1 = addedDecorations st @ [m] \<and>
       effectHandled st1 = effectHandled st \<and> spanOf m = (f, t, u) \<and> goodMark m"
proof -
  let ?m = "\<lparr>range_from = f, range_to = t,
             styleIndex = jsRem (indexOf (colorSet_add u (colorSet st)) u) 7,
             dataUserId = Some u\<rparr>"
  let ?st1 = "st\<lparr>addedDecorations := addedDecorations st @ [?m],
                 colorSet := colorSet_add u (colorSet st)\<rparr>"
  have "pushMark f t u st = (?st1, Inr ())"
    using assms by (simp add: pushMark_def createMark_def markRange_def Let_def)
  moreover have "spanOf ?m = (f, t, u) \<and> goodMark ?m"
    using assms by (simp add: spanOf_def decorationUserIdOf_def goodMark_def)
  ultimately show ?thesis by (intro exI [of _ ?st1] exI [of _ ?m]) simp
qed

lemma pushMark_error:
  "t \<le> f \<Longrightarrow> \<exists>st1. pushMark f t u st = (st1, Inl RangeError)"
  by (simp add: pushMark_def createMark_def markRange_def Let_def)

lemma filterCallback_handled:
  "effectHandled st \<Longrightarrow> filterCallback e r st = (st, Inr True)"
  by (simp add: filterCallback_def)

lemma filterCallback_merge:
  assumes "\<not> effectHandled st" "decorationUserIdOf d = userId e"
    and "range_from d = eff_to e \<or> range_to d = eff_from e" "goodMark d"
  shows "\<exists>st1 m. filterCallback e d st = (st1, Inr False) \<and> handledWith st st1 [m] \<and>
     spanOf m = (min (range_from d) (eff_from e), max (range_to d) (eff_to e), userId e) \<and>
     goodMark m"
proof -
  have "min (range_from d) (eff_from e) < max (range_to d) (eff_to e)"
    using assms(4) by (auto simp: goodMark_def)
  from pushMark_ok [OF this, of "userId e" st] obtain st1 m where
    p: "pushMark (min (range_from d) (eff_from e)) (max (range_to d) (eff_to e)) (userId e) st =
       (st1, Inr ())"
    and a: "addedDecorations st1 = addedDecorations st @ [m]"
    and s: "spanOf m = (min (range_from d) (eff_from e), max (range_to d) (eff_to e), userId e)"
    and g: "goodMark m" by blast
  have "filterCallback e d st = (st1\<lparr>effectHandled := True\<rparr>, Inr False)"
    using assms(1,2,3) p by (auto simp: filterCallback_def andThen_def Let_def)
  moreover have "handledWith st (st1\<lparr>effectHandled := True\<rparr>) [m]"
    using a by (simp add: handledWith_def)
  ultimately show ?thesis using s g by blast
qed

lemma filterCallback_recreate:
  assumes "\<not> effectHandled st" "decorationUserIdOf d = userId e"
    and "\<not> (range_from d = eff_to e \<or> range_to d = eff_from e)" "goodMark d"
  shows "\<exists>st1 m. filterCallback e d st = (st1, Inr False) \<and> handledWith st st1 [m] \<and>
     spanOf m = (range_from d, range_to d, userId e) \<and> goodMark m"
proof -
  have "range_from d < range_to d" using assms(4) by (simp add: goodMark_def)
  from pushMark_ok [OF this, of "userId e" st] obtain st1 m where
    p: "pushMark (range_from d) (range_to d) (userId e) st = (st1, Inr ())"
    and a: "addedDecorations st1 = addedDecorations st @ [m]"
    and s: "spanOf m = (range_from d, range_to d, userId e)" and g: "goodMark m" by blast
  have "filterCallback e d st = (st1\<lparr>effectHandled := True\<rparr>, Inr False)"
    using assms(1,2,3) p by (auto simp: filterCallback_def andThen_def Let_def)
  moreover have "handledWith st (st1\<lparr>effectHandled := True\<rparr>) [m]"
    using a by (simp add: handledWith_def)
  ultimately show ?thesis using s g by blast
qed

lemma sorted_wrt_short: "length xs \<le> Suc 0 \<Longrightarrow> sorted_wrt P xs"
  by (cases xs) auto

lemma pushMark_if:
  "\<exists>st1 l. (if c then pushMark f t u st else (st, Inr ())) = (st1, Inr ()) \<and>
       addedDecorations st1 = addedDecorations st @ l \<and>
       effectHandled st1 = effectHandled st \<and>
       map spanOf l = (if c then [(f, t, u)] else []) \<and> list_all goodMark l"
  if "c \<Longrightarrow> f < t"
proof (cases c)
  case True
  from pushMark_ok [OF that [OF True], of u st] obtain st1 m where
    "pushMark f t u st = (st1, Inr ())" "addedDecorations st1 = addedDecorations st @ [m]"
    "effectHandled st1 = effectHandled st" "spanOf m = (f, t, u)" "goodMark m" by blast
  with True show ?thesis by (intro exI [of _ st1] exI [of _ "[m]"]) simp
next
  case False
  then show ?thesis by (intro exI [of _ st] exI [of _ "[]"]) simp
qed

lemma filterCallback_split:
  assumes nh: "\<not> effectHandled st" and other: "decorationUserIdOf d \<noteq> userId e"
    and ne: "eff_from e < eff_to e"
  shows "\<exists>st1 l m r. filterCallback e d st = (st1, Inr False) \<and>
     handledWith st st1 (l @ [m] @ r) \<and>
     map spanOf l = (if range_from d < eff_from e
                     then [(range_from d, eff_from e, decorationUserIdOf d)] else []) \<and>
     spanOf m = (eff_from e, eff_to e, userId e) \<and>
     map spanOf r = (if eff_to e < range_to d
                     then [(eff_to e, range_to d, decorationUserIdOf d)] else []) \<and>
     list_all goodMark (l @ [m] @ r) \<and> sorted_wrt fromOrdered (l @ [m] @ r)"
proof -
  let ?u = "decorationUserIdOf d"
  from pushMark_if [of "range_from d < eff_from e" "range_from d" "eff_from e" ?u st]
  obtain st1 l where
    s1: "(if range_from d < eff_from e then pushMark (range_from d) (eff_from e) ?u st
          else (st, Inr ())) = (st1, Inr ())"
    and a1: "addedDecorations st1 = addedDecorations st @ l"
    and l: "map spanOf l = (if range_from d < eff_from e
                            then [(range_from d, eff_from e, ?u)] else [])"
    and gl: "list_all goodMark l" by auto
  from pushMark_ok [OF ne, of "userId e" st1] obtain st2 m where
    s2: "pushMark (eff_from e) (eff_to e) (userId e) st1 = (st2, Inr ())"
    and a2: "addedDecorations st2 = addedDecorations st1 @ [m]"
    and m: "spanOf m = (eff_from e, eff_to e, userId e)" and gm: "goodMark m" by blast
  from pushMark_if [of "eff_to e < range_to d" "eff_to e" "range_to d" ?u st2]
  obtain st3 r where
    s3: "(if eff_to e < range_to d then pushMark (eff_to e) (range_to d) ?u st2
          else (st2, Inr ())) = (st3, Inr ())"
    and a3: "addedDecorations st3 = addedDecorations st2 @ r"
    and r: "map spanOf r = (if eff_to e < range_to d
                            then [(eff_to e, range_to d, ?u)] else [])"
    and gr: "list_all goodMark r" by auto
  have cb: "filterCallback e d st = (st3\<lparr>effectHandled := True\<rparr>, Inr False)"
    using nh other s1 s2 s3 by (simp add: filterCallback_def andThen_def Let_def)
  have hw: "handledWith st (st3\<lparr>effectHandled := True\<rparr>) (l @ [m] @ r)"
    using a1 a2 a3 by (simp add: handledWith_def)
  have fl: "\<forall>x \<in> set l. range_from x < eff_from e"
  proof
    fix x assume "x \<in> set l"
    then have "spanOf x \<in> set (map spanOf l)" by simp
    with l show "range_from x < eff_from e" by (auto simp: spanOf_def split: if_splits)
  qed
  have fr: "\<forall>x \<in> set r. range_from x = eff_to e"
  proof
    fix x assume "x \<in> set r"
    then have "spanOf x \<in> set (map spanOf r)" by simp
    with r show "range_from x = eff_to e" by (auto simp: spanOf_def split: if_splits)
  qed
  have fm: "range_from m = eff_from e" using m by (simp add: spanOf_def)
  have "length (map spanOf l) \<le> Suc 0" "length (map spanOf r) \<le> Suc 0"
    unfolding l r by simp_all
  then have sl: "sorted_wrt fromOrdered l" "sorted_wrt fromOrdered r"
    by (simp_all add: sorted_wrt_short)
  have so: "sorted_wrt fromOrdered (l @ [m] @ r)"
    using fl fr fm ne sl by (auto simp: sorted_wrt_append)
  have ga: "list_all goodMark (l @ [m] @ r)" using gl gm gr by simp
  show ?thesis
    by (intro exI [of _ "st3\<lparr>effectHandled := True\<rparr>"] exI [of _ l] exI [of _ m]
          exI [of _ r] conjI cb hw l m r ga so)
qed

lemma filterCallback_split_error:
  assumes "\<not> effectHandled st" "decorationUserIdOf d \<noteq> userId e" "eff_to e \<le> eff_from e"
  shows "\<exists>st1. filterCallback e d st = (st1, Inl RangeError)"
proof -
  let ?u = "decorationUserIdOf d"
  from pushMark_if [of "range_from d < eff_from e" "range_from d" "eff_from e" ?u st]
  obtain st1 where
    s1: "(if range_from d < eff_from e then pushMark (range_from d) (eff_from e) ?u st
          else (st, Inr ())) = (st1, Inr ())" by auto
  from pushMark_error [OF assms(3), of "userId e" st1] obtain st2 where
    "pushMark (eff_from e) (eff_to e) (userId e) st1 = (st2, Inl RangeError)" by blast
  then show ?thesis
    using assms(1,2) s1 by (simp add: filterCallback_def andThen_def Let_def)
qed

subsection \<open>One effect\<close>

lemma firstVisited_goodMark:
  "list_all wellFormedLayer ds \<Longrightarrow> firstVisited e ds = Some d \<Longrightarrow> goodMark d"
  unfolding firstVisited_def
  by (auto dest!: find_Some_mem simp: list_all_iff wellFormedLayer_def)

lemma applyEffect_visited:
  assumes wf: "list_all wellFormedLayer ds"
    and fv: "firstVisited e ds = Some d"
    and cb: "filterCallback e d \<lparr>effectHandled = False, addedDecorations = [], colorSet = cs\<rparr> =
               (st1, Inr False)"
    and hw: "handledWith \<lparr>effectHandled = False, addedDecorations = [], colorSet = cs\<rparr> st1 added"
    and ne: "added \<noteq> []" and good: "list_all goodMark added"
    and sorted: "sorted_wrt fromOrdered added"
  shows "\<exists>res. applyEffect e (cs, ds) = (colorSet st1, Inr res) \<and> list_all wellFormedLayer res \<and>
           mset (concat res) = mset (concat ds) - {#d#} + mset added"
proof -
  let ?st0 = "\<lparr>effectHandled = False, addedDecorations = [], colorSet = cs\<rparr>"
  have h: "effectHandled st1" and a: "addedDecorations st1 = added"
    using hw by (simp_all add: handledWith_def)
  have after: "\<forall>r. filterCallback e r st1 = (st1, Inr True)"
    using h by (simp add: filterCallback_handled)
  from rangeSetUpdate_removed
         [where cb = "filterCallback e", OF fv [unfolded firstVisited_def] cb after wf]
  obtain kept where
    k: "rangeSetUpdate (Some (filterCallback e)) (eff_from e) (eff_to e) [] ds ?st0 =
          (st1, Inr kept)"
    and wk: "list_all wellFormedLayer kept"
    and mk: "mset (concat kept) = mset (concat ds) - {#d#}" by blast
  from rangeSetUpdate_add [OF wk good sorted, of 0 0 "()"] obtain res where
    r: "rangeSetUpdate None 0 0 added kept () = ((), Inr res)"
    and wr: "list_all wellFormedLayer res"
    and mr: "mset (concat res) = mset (concat kept) + mset added" by blast
  have "applyEffect e (cs, ds) = (colorSet st1, Inr res)"
    using k r a ne by (simp add: applyEffect_def Let_def)
  with wr mr mk show ?thesis by simp
qed

lemma applyEffect_visited_error:
  assumes wf: "list_all wellFormedLayer ds"
    and fv: "firstVisited e ds = Some d"
    and cb: "filterCallback e d \<lparr>effectHandled = False, addedDecorations = [], colorSet = cs\<rparr> =
               (st1, Inl err)"
  shows "applyEffect e (cs, ds) = (colorSet st1, Inl err)"
  using rangeSetUpdate_error
          [where cb = "filterCallback e", OF fv [unfolded firstVisited_def] cb wf]
  by (simp add: applyEffect_def Let_def)

lemma applyEffect_unvisited:
  assumes wf: "list_all wellFormedLayer ds"
    and fv: "firstVisited e ds = None"
    and ne: "eff_from e < eff_to e"
  shows "\<exists>cs' res m. applyEffect e (cs, ds) = (cs', Inr res) \<and> list_all wellFormedLayer res \<and>
           spanOf m = (eff_from e, eff_to e, userId e) \<and> goodMark m \<and>
           mset (concat res) = mset (concat ds) + {#m#}"
proof -
  let ?st0 = "\<lparr>effectHandled = False, addedDecorations = [], colorSet = cs\<rparr>"
  have pre: "\<forall>r \<in> set (concat ds). filterApplies (eff_from e) (eff_to e) r \<longrightarrow>
          filterCallback e r ?st0 = (?st0, Inr True)"
    using find_None_all [OF fv [unfolded firstVisited_def]] by blast
  have k: "rangeSetUpdate (Some (filterCallback e)) (eff_from e) (eff_to e) [] ds ?st0 =
          (?st0, Inr ds)"
    by (rule rangeSetUpdate_keep [where cb = "filterCallback e", OF pre wf])
  from pushMark_ok [OF ne, of "userId e" ?st0] obtain st2 m where
    p: "pushMark (eff_from e) (eff_to e) (userId e) ?st0 = (st2, Inr ())"
    and a: "addedDecorations st2 = [m]"
    and s: "spanOf m = (eff_from e, eff_to e, userId e)" and g: "goodMark m" by auto
  from rangeSetUpdate_add [OF wf, of "[m]" 0 0 "()"] g obtain res where
    r: "rangeSetUpdate None 0 0 [m] ds () = ((), Inr res)"
    and wr: "list_all wellFormedLayer res"
    and mr: "mset (concat res) = mset (concat ds) + mset [m]" by auto
  have "applyEffect e (cs, ds) = (colorSet st2, Inr res)"
    using k p a r by (simp add: applyEffect_def Let_def)
  with wr mr s g show ?thesis by auto
qed

lemma applyEffect_unvisited_error:
  assumes wf: "list_all wellFormedLayer ds"
    and fv: "firstVisited e ds = None"
    and ne: "eff_to e \<le> eff_from e"
  shows "\<exists>cs'. applyEffect e (cs, ds) = (cs', Inl RangeError)"
proof -
  let ?st0 = "\<lparr>effectHandled = False, addedDecorations = [], colorSet = cs\<rparr>"
  have pre: "\<forall>r \<in> set (concat ds). filterApplies (eff_from e) (eff_to e) r \<longrightarrow>
          filterCallback e r ?st0 = (?st0, Inr True)"
    using find_None_all [OF fv [unfolded firstVisited_def]] by blast
  have k: "rangeSetUpdate (Some (filterCallback e)) (eff_from e) (eff_to e) [] ds ?st0 =
          (?st0, Inr ds)"
    by (rule rangeSetUpdate_keep [where cb = "filterCallback e", OF pre wf])
  from pushMark_error [OF ne, of "userId e" ?st0] obtain st2 where
    "pushMark (eff_from e) (eff_to e) (userId e) ?st0 = (st2, Inl RangeError)" by blast
  with k show ?thesis by (simp add: applyEffect_def Let_def)
qed

lemma update_single:
  "authorshipEffects (effects tr) = [e] \<Longrightarrow>
   update mapSet s tr = applyEffect e (fst s, mapSet (changes tr) (snd s))"
  by (simp add: update_def Let_def split: prod.splits sum.splits)

lemma update_forEach:
  "update mapSet s tr =
     forEachEffect (authorshipEffects (effects tr)) (fst s, mapSet (changes tr) (snd s))"
  by (simp add: update_def Let_def)

lemma applyEffect_merge:
  assumes wf: "list_all wellFormedLayer ds" and fv: "firstVisited e ds = Some d"
    and "decorationUserIdOf d = userId e"
    and "range_from d = eff_to e \<or> range_to d = eff_from e"
  shows "\<exists>cs' res m. applyEffect e (cs, ds) = (cs', Inr res) \<and> list_all wellFormedLayer res \<and>
     spanOf m = (min (range_from d) (eff_from e), max (range_to d) (eff_to e), userId e) \<and>
     goodMark m \<and> mset (concat res) = mset (concat ds) - {#d#} + {#m#}"
proof -
  let ?st0 = "\<lparr>effectHandled = False, addedDecorations = [], colorSet = cs\<rparr>"
  from filterCallback_merge [of ?st0 d e] assms(3,4) firstVisited_goodMark [OF wf fv]
  obtain st1 m where
    cb: "filterCallback e d ?st0 = (st1, Inr False)" and hw: "handledWith ?st0 st1 [m]"
    and s: "spanOf m = (min (range_from d) (eff_from e), max (range_to d) (eff_to e), userId e)"
    and g: "goodMark m" by auto
  from applyEffect_visited [OF wf fv cb hw] g obtain res where
    "applyEffect e (cs, ds) = (colorSet st1, Inr res)" "list_all wellFormedLayer res"
    "mset (concat res) = mset (concat ds) - {#d#} + mset [m]" by auto
  with s g show ?thesis by auto
qed

lemma applyEffect_recreate:
  assumes wf: "list_all wellFormedLayer ds" and fv: "firstVisited e ds = Some d"
    and "decorationUserIdOf d = userId e"
    and "\<not> (range_from d = eff_to e \<or> range_to d = eff_from e)"
  shows "\<exists>cs' res m. applyEffect e (cs, ds) = (cs', Inr res) \<and> list_all wellFormedLayer res \<and>
     spanOf m = (range_from d, range_to d, userId e) \<and>
     goodMark m \<and> mset (concat res) = mset (concat ds) - {#d#} + {#m#}"
proof -
  let ?st0 = "\<lparr>effectHandled = False, addedDecorations = [], colorSet = cs\<rparr>"
  from filterCallback_recreate [of ?st0 d e] assms(3,4) firstVisited_goodMark [OF wf fv]
  obtain st1 m where
    cb: "filterCallback e d ?st0 = (st1, Inr False)" and hw: "handledWith ?st0 st1 [m]"
    and s: "spanOf m = (range_from d, range_to d, userId e)"
    and g: "goodMark m" by auto
  from applyEffect_visited [OF wf fv cb hw] g obtain res where
    "applyEffect e (cs, ds) = (colorSet st1, Inr res)" "list_all wellFormedLayer res"
    "mset (concat res) = mset (concat ds) - {#d#} + mset [m]" by auto
  with s g show ?thesis by auto
qed

lemma applyEffect_split:
  assumes wf: "list_all wellFormedLayer ds" and fv: "firstVisited e ds = Some d"
    and other: "decorationUserIdOf d \<noteq> userId e" and ne: "eff_from e < eff_to e"
  shows "\<exists>cs' res l m r. applyEffect e (cs, ds) = (cs', Inr res) \<and>
     list_all wellFormedLayer res \<and>
     map spanOf l = (if range_from d < eff_from e
                     then [(range_from d, eff_from e, decorationUserIdOf d)] else []) \<and>
     spanOf m = (eff_from e, eff_to e, userId e) \<and>
     map spanOf r = (if eff_to e < range_to d
                     then [(eff_to e, range_to d, decorationUserIdOf d)] else []) \<and>
     list_all goodMark (l @ [m] @ r) \<and>
     mset (concat res) = mset (concat ds) - {#d#} + mset (l @ [m] @ r)"
proof -
  let ?st0 = "\<lparr>effectHandled = False, addedDecorations = [], colorSet = cs\<rparr>"
  from filterCallback_split [of ?st0 d e] other ne
  obtain st1 l m r where
    cb: "filterCallback e d ?st0 = (st1, Inr False)"
    and hw: "handledWith ?st0 st1 (l @ [m] @ r)"
    and l: "map spanOf l = (if range_from d < eff_from e
                     then [(range_from d, eff_from e, decorationUserIdOf d)] else [])"
    and m: "spanOf m = (eff_from e, eff_to e, userId e)"
    and r: "map spanOf r = (if eff_to e < range_to d
                     then [(eff_to e, range_to d, decorationUserIdOf d)] else [])"
    and g: "list_all goodMark (l @ [m] @ r)" and so: "sorted_wrt fromOrdered (l @ [m] @ r)"
    by auto
  have "l @ [m] @ r \<noteq> []" by simp
  from applyEffect_visited [OF wf fv cb hw this g so] obtain res where
    a: "applyEffect e (cs, ds) = (colorSet st1, Inr res)" and w: "list_all wellFormedLayer res"
    and ms: "mset (concat res) = mset (concat ds) - {#d#} + mset (l @ [m] @ r)" by blast
  show ?thesis
    by (intro exI [of _ "colorSet st1"] exI [of _ res] exI [of _ l] exI [of _ m] exI [of _ r]
          conjI a w l m r g ms)
qed

lemma applyEffect_split_error:
  assumes wf: "list_all wellFormedLayer ds" and fv: "firstVisited e ds = Some d"
    and other: "decorationUserIdOf d \<noteq> userId e" and ne: "eff_to e \<le> eff_from e"
  shows "\<exists>cs'. applyEffect e (cs, ds) = (cs', Inl RangeError)"
proof -
  let ?st0 = "\<lparr>effectHandled = False, addedDecorations = [], colorSet = cs\<rparr>"
  from filterCallback_split_error [of ?st0 d e] other ne obtain st1 where
    "filterCallback e d ?st0 = (st1, Inl RangeError)" by auto
  from applyEffect_visited_error [OF wf fv this] show ?thesis by blast
qed

lemma spans_length:
  assumes "map spanOf l = (if c then [x] else [])"
  shows "length l \<le> 1"
proof -
  have "length (map spanOf l) \<le> 1" unfolding assms by simp
  then show ?thesis by simp
qed

lemma spans_from:
  assumes l: "map spanOf l = (if c then [(f, t, u)] else [])"
  shows "\<forall>a \<in> set l. range_from a = f"
proof
  fix a assume "a \<in> set l"
  then have "spanOf a \<in> set (map spanOf l)" by simp
  then show "range_from a = f" unfolding l by (auto simp: spanOf_def split: if_splits)
qed

text \<open>Every outcome of one effect on a set with well-formed layers.\<close>

lemma applyEffect_outcome:
  assumes wf: "list_all wellFormedLayer ds"
    and ok: "applyEffect e (cs, ds) = (cs', Inr res)"
  shows "\<exists>added. added \<noteq> [] \<and> length added \<le> 3 \<and> list_all wellFormedLayer res \<and>
     mset (concat res) =
       (case firstVisited e ds of None \<Rightarrow> mset (concat ds)
        | Some d \<Rightarrow> mset (concat ds) - {#d#}) + mset added \<and>
     (\<forall>a \<in> set added. range_from a = eff_from e \<or> range_from a = eff_to e \<or>
        (\<exists>d. firstVisited e ds = Some d \<and>
           (range_from a = range_from d \<or> range_from a = min (range_from d) (eff_from e)))) \<and>
     (firstVisited e ds = None \<or> (\<exists>d. firstVisited e ds = Some d \<and>
        decorationUserIdOf d \<noteq> userId e) \<longrightarrow> eff_from e < eff_to e)"
proof (cases "firstVisited e ds")
  case None
  show ?thesis
  proof (cases "eff_from e < eff_to e")
    case True
    from applyEffect_unvisited [OF wf None True, of cs] ok obtain m where
      "list_all wellFormedLayer res" "spanOf m = (eff_from e, eff_to e, userId e)"
      "mset (concat res) = mset (concat ds) + {#m#}" by auto
    then show ?thesis using None True
      by (intro exI [of _ "[m]"]) (auto simp: spanOf_def)
  next
    case False
    with applyEffect_unvisited_error [OF wf None, of cs] ok show ?thesis by auto
  qed
next
  case (Some d)
  show ?thesis
  proof (cases "decorationUserIdOf d = userId e")
    case same: True
    show ?thesis
    proof (cases "range_from d = eff_to e \<or> range_to d = eff_from e")
      case True
      from applyEffect_merge [OF wf Some same True, of cs] ok obtain m where
        "list_all wellFormedLayer res"
        "spanOf m = (min (range_from d) (eff_from e), max (range_to d) (eff_to e), userId e)"
        "mset (concat res) = mset (concat ds) - {#d#} + {#m#}" by auto
      then show ?thesis using Some same
        by (intro exI [of _ "[m]"]) (auto simp: spanOf_def)
    next
      case False
      from applyEffect_recreate [OF wf Some same False, of cs] ok obtain m where
        "list_all wellFormedLayer res"
        "spanOf m = (range_from d, range_to d, userId e)"
        "mset (concat res) = mset (concat ds) - {#d#} + {#m#}" by auto
      then show ?thesis using Some same
        by (intro exI [of _ "[m]"]) (auto simp: spanOf_def)
    qed
  next
    case other: False
    show ?thesis
    proof (cases "eff_from e < eff_to e")
      case True
      from applyEffect_split [OF wf Some other True, of cs] ok obtain l m r where
        w: "list_all wellFormedLayer res"
        and l: "map spanOf l = (if range_from d < eff_from e
                     then [(range_from d, eff_from e, decorationUserIdOf d)] else [])"
        and m: "spanOf m = (eff_from e, eff_to e, userId e)"
        and r: "map spanOf r = (if eff_to e < range_to d
                     then [(eff_to e, range_to d, decorationUserIdOf d)] else [])"
        and ms: "mset (concat res) = mset (concat ds) - {#d#} + mset (l @ [m] @ r)" by auto
      have len: "length (l @ [m] @ r) \<le> 3"
        using spans_length [OF l] spans_length [OF r] by simp
      have fr: "\<forall>a \<in> set (l @ [m] @ r). range_from a = eff_from e \<or> range_from a = eff_to e \<or>
                  range_from a = range_from d"
        using spans_from [OF l] spans_from [OF r] m by (auto simp: spanOf_def)
      show ?thesis
        using Some True w ms len fr by (intro exI [of _ "l @ [m] @ r"]) auto
    next
      case False
      with applyEffect_split_error [OF wf Some other, of cs] ok show ?thesis by auto
    qed
  qed
qed

text \<open>The layers stay well-formed, and the offsets non-negative.\<close>

lemma applyEffect_wellFormed:
  assumes "wellFormed ds" "0 \<le> eff_from e" "applyEffect e (cs, ds) = (cs', Inr res)"
  shows "wellFormed res"
proof -
  have wf: "list_all wellFormedLayer ds" and nn: "\<forall>r \<in> set (concat ds). 0 \<le> range_from r"
    using assms(1) by (simp_all add: wellFormed_def list_all_iff)
  from applyEffect_outcome [OF wf assms(3)] obtain added where
    w: "list_all wellFormedLayer res"
    and ms: "mset (concat res) =
       (case firstVisited e ds of None \<Rightarrow> mset (concat ds)
        | Some d \<Rightarrow> mset (concat ds) - {#d#}) + mset added"
    and fr: "\<forall>a \<in> set added. range_from a = eff_from e \<or> range_from a = eff_to e \<or>
        (\<exists>d. firstVisited e ds = Some d \<and>
           (range_from a = range_from d \<or> range_from a = min (range_from d) (eff_from e)))"
    and ne: "firstVisited e ds = None \<or> (\<exists>d. firstVisited e ds = Some d \<and>
        decorationUserIdOf d \<noteq> userId e) \<longrightarrow> eff_from e < eff_to e"
    by blast
  have dn: "0 \<le> range_from d" if "firstVisited e ds = Some d" for d
    using that nn unfolding firstVisited_def by (auto dest!: find_Some_mem)
  have an: "0 \<le> range_from a" if a: "a \<in> set added" for a
  proof -
    from fr a consider "range_from a = eff_from e" | "range_from a = eff_to e"
      | d where "firstVisited e ds = Some d"
          "range_from a = range_from d \<or> range_from a = min (range_from d) (eff_from e)"
      by blast
    then show ?thesis
    proof cases
      case 1
      then show ?thesis using assms(2) by simp
    next
      case 2
      show ?thesis
      proof (cases "eff_from e < eff_to e")
        case True
        with 2 assms(2) show ?thesis by simp
      next
        case False
        with ne obtain d where d: "firstVisited e ds = Some d" "decorationUserIdOf d = userId e"
          by (cases "firstVisited e ds") auto
        have gd: "goodMark d" by (rule firstVisited_goodMark [OF wf d(1)])
        have ap: "filterApplies (eff_from e) (eff_to e) d"
          using d(1) unfolding firstVisited_def by (auto dest!: find_Some_mem)
        have "0 \<le> range_to d" using dn [OF d(1)] gd by (simp add: goodMark_def)
        then have "0 \<le> eff_to e \<or> eff_to e \<ge> range_from d"
          using ap False by (auto simp: filterApplies_def)
        with 2 dn [OF d(1)] show ?thesis by auto
      qed
    next
      case 3
      with dn assms(2) show ?thesis by auto
    qed
  qed
  have "\<forall>r \<in> set (concat res). 0 \<le> range_from r"
  proof
    fix r assume "r \<in> set (concat res)"
    then have "r \<in># mset (concat res)" by simp
    then have "r \<in># mset (concat ds) \<or> r \<in># mset added"
      unfolding ms by (auto split: option.splits dest: in_diffD)
    with nn an show "0 \<le> range_from r" by auto
  qed
  with w show ?thesis by (simp add: wellFormed_def list_all_iff)
qed

subsection \<open>Concrete transactions\<close>

lemmas host_eval =
  addToLayer_def addInner_def rangeSetOf_def filterApplies_def markRange_def

lemmas authorship_eval =
  update_def applyEffect_def filterCallback_def pushMark_def createMark_def andThen_def
  colorSet_add_def jsRem_def decorationUserIdOf_def Let_def

lemmas authorship_fixtures =
  mark_def authorshipUpdate_def transactionOf_def noChanges_def

text \<open>
  The callback is asked about the whole first layer before the second: with X 0..2 and
  Y 5..10 in the first layer and Z 1..8 in the second, the effect of W at 5..6 splits Y
  and keeps Z whole, although Z starts before Y.
\<close>

lemma first_layer_visited_first:
  "update noChanges ([''X'',''Z'',''Y''], [[mark 0 2 0 ''X'', mark 5 10 2 ''Y''], [mark 1 8 1 ''Z'']]) (transactionOf [authorshipUpdate 5 6 ''W'' True])
   = ([''X'',''Z'',''Y'',''W''], Inr [[mark 0 2 0 ''X'', mark 5 6 3 ''W'', mark 6 10 2 ''Y''], [mark 1 8 1 ''Z'']])"
  by (simp add: authorship_eval authorship_fixtures host_eval)

text \<open>
  An effect with \<open>from = to\<close> makes \<open>createMark\<close> ask the host for an empty mark: the
  update throws, after the user has been registered in \<open>colorSet\<close>.
\<close>

lemma empty_effect_throws: 
  "update noChanges ([''V''], [[mark 0 10 0 ''V'']]) (transactionOf [authorshipUpdate 4 4 ''U'' True])
    = ([''V'', ''U''], Inl RangeError)"
  by (simp add: authorship_eval authorship_fixtures host_eval)

lemma wellFormed_layers: "wellFormed ds \<Longrightarrow> list_all wellFormedLayer ds"
  by (simp add: wellFormed_def)

subsection \<open>Merging with an adjacent decoration of the same user\<close>

text \<open>
  C6, as stated, fails. User B types one character at offset 5, between the text of
  A (0..5) and B's own text (now 6..11); the effect is B's, 5..6. B's decoration starts
  at the effect's end, so the claim asks for one decoration of B from 5 to 11. But the
  callback is asked about A's decoration first (it ends at the effect's start), handles
  the effect there, and keeps B's decoration 6..11 as it is next to a new one 5..6.
\<close>

theorem adjacent_same_user_not_merged_counterexample:
  "decorationUserIdOf (mark 6 11 1 ''B'') = userId (authorshipUpdate 5 6 ''B'' True) \<and>
   range_from (mark 6 11 1 ''B'') = eff_to (authorshipUpdate 5 6 ''B'' True) \<and>
   update noChanges ([''A'', ''B''], [[mark 0 5 0 ''A'', mark 6 11 1 ''B'']])
     (transactionOf [authorshipUpdate 5 6 ''B'' True])
     = ([''A'', ''B''], Inr [[mark 0 5 0 ''A'', mark 5 6 1 ''B'', mark 6 11 1 ''B'']])"
  by (simp add: authorship_eval authorship_fixtures host_eval)

text \<open>
  C6, amended: let the decoration set have well-formed layers, and let the decoration
  that matches the effect's user and is adjacent to the effect range be the first
  decoration the host asks the callback about for this effect (the first one, layer
  after layer and in position order within a layer, that touches the closed range
  from..to). Then processing the effect does not throw, takes that decoration out and
  adds one decoration of that user from the minimum of the two start offsets to the
  maximum of the two end offsets; every other decoration stays in the set. When the
  effect is the only authorship update of the transaction, this is the result of the
  state-field update.
\<close>

theorem adjacent_same_user_merged_when_first_visited:
  assumes "wellFormed ds"
    and "firstVisited e ds = Some d"
    and "decorationUserIdOf d = userId e"
    and "range_from d = eff_to e \<or> range_to d = eff_from e"
  shows "\<exists>cs' res m. applyEffect e (cs, ds) = (cs', Inr res) \<and>
     spanOf m = (min (range_from d) (eff_from e), max (range_to d) (eff_to e), userId e) \<and>
     mset (concat res) = mset (concat ds) - {#d#} + {#m#} \<and>
     (authorshipEffects (effects tr) = [e] \<and> mapSet (changes tr) ds0 = ds \<longrightarrow>
        update mapSet (cs, ds0) tr = (cs', Inr res))"
proof -
  from applyEffect_merge [OF wellFormed_layers [OF assms(1)] assms(2,3,4), of cs]
  obtain cs' res m where
    a: "applyEffect e (cs, ds) = (cs', Inr res)"
    and s: "spanOf m = (min (range_from d) (eff_from e), max (range_to d) (eff_to e), userId e)"
    and ms: "mset (concat res) = mset (concat ds) - {#d#} + {#m#}" by blast
  have u: "authorshipEffects (effects tr) = [e] \<and> mapSet (changes tr) ds0 = ds \<longrightarrow>
        update mapSet (cs, ds0) tr = (cs', Inr res)"
    using a by (auto simp: update_single)
  show ?thesis
    by (intro exI [of _ cs'] exI [of _ res] exI [of _ m] conjI a s ms u)
qed

theorem adjacent_same_user_merged_when_first_visited_witness:
  "\<exists>cs' res m.
     update noChanges ([''X'', ''B'', ''Y''],
         [[mark 0 2 0 ''X'', mark 7 9 2 ''Y''], [mark 1 5 1 ''B'']])
       (transactionOf [authorshipUpdate 5 6 ''B'' True]) = (cs', Inr res) \<and>
     spanOf m = (1, 6, ''B'') \<and>
     mset (concat res) = {#mark 0 2 0 ''X'', mark 7 9 2 ''Y'', m#}"
proof -
  let ?e = "authorshipUpdate 5 6 ''B'' True"
  let ?d = "mark 1 5 1 ''B''"
  let ?ds = "[[mark 0 2 0 ''X'', mark 7 9 2 ''Y''], [?d]]"
  let ?tr = "transactionOf [?e]"
  have wf: "wellFormed ?ds"
    by (simp add: wellFormed_def wellFormedLayer_def goodMark_def mark_def)
  have fv: "firstVisited ?e ?ds = Some ?d"
    by (simp add: firstVisited_def filterApplies_def mark_def authorshipUpdate_def)
  have same: "decorationUserIdOf ?d = userId ?e"
    by (simp add: decorationUserIdOf_def mark_def authorshipUpdate_def)
  have adj: "range_from ?d = eff_to ?e \<or> range_to ?d = eff_from ?e"
    by (simp add: mark_def authorshipUpdate_def)
  have tr: "authorshipEffects (effects ?tr) = [?e] \<and> noChanges (changes ?tr) ?ds = ?ds"
    by (simp add: transactionOf_def noChanges_def)
  from adjacent_same_user_merged_when_first_visited
         [OF wf fv same adj, where tr = ?tr and mapSet = noChanges and ?ds0.0 = ?ds
            and cs = "[''X'', ''B'', ''Y'']"] tr
  obtain cs' res m where
    u: "update noChanges ([''X'', ''B'', ''Y''], ?ds) ?tr = (cs', Inr res)"
    and s: "spanOf m = (min (range_from ?d) (eff_from ?e), max (range_to ?d) (eff_to ?e),
                        userId ?e)"
    and ms: "mset (concat res) = mset (concat ?ds) - {#?d#} + {#m#}" by blast
  have s': "spanOf m = (1, 6, ''B'')"
    using s by (simp add: mark_def authorshipUpdate_def)
  have ms': "mset (concat res) = {#mark 0 2 0 ''X'', mark 7 9 2 ''Y'', m#}"
    using ms by simp
  show ?thesis
    by (intro exI [of _ cs'] exI [of _ res] exI [of _ m] conjI u s' ms')
qed

subsection \<open>Splitting a decoration of another user\<close>

text \<open>
  C7, as stated, fails. V's decoration is 3..10, after A's 0..3, and U's effect is 3..5:
  it overlaps V's decoration. The callback is asked about A's decoration first (it ends
  at the effect's start) and handles the effect there; V's decoration stays whole, and
  the host moves it to a second layer because U's new mark 3..5 overlaps it.
\<close>

theorem overlapped_other_user_not_split_counterexample:
  "decorationUserIdOf (mark 3 10 1 ''V'') \<noteq> userId (authorshipUpdate 3 5 ''U'' True) \<and>
   range_from (mark 3 10 1 ''V'') < eff_to (authorshipUpdate 3 5 ''U'' True) \<and>
   eff_from (authorshipUpdate 3 5 ''U'' True) < range_to (mark 3 10 1 ''V'') \<and>
   update noChanges ([''A'', ''V''], [[mark 0 3 0 ''A'', mark 3 10 1 ''V'']])
     (transactionOf [authorshipUpdate 3 5 ''U'' True])
     = ([''A'', ''V'', ''U''],
        Inr [[mark 0 3 0 ''A'', mark 3 5 2 ''U''], [mark 3 10 1 ''V'']])"
  by (simp add: authorship_eval authorship_fixtures host_eval)

text \<open>
  C7, amended: let the decoration set have well-formed layers, let the effect be
  non-empty (from < to), and let the decoration of another user V be the first
  decoration the host asks the callback about for this effect (the first one, layer
  after layer and in position order within a layer, that touches the closed range
  from..to). Then processing the effect does not throw, takes that decoration out and
  adds up to three decorations: one of V from the decoration's start to the effect's
  start when the decoration starts strictly before the effect, one of the effect's user
  over the effect range, and one of V from the effect's end to the decoration's end
  when the decoration ends strictly after the effect; every other decoration stays in
  the set. When the effect is the only authorship update of the transaction, this is
  the result of the state-field update.
\<close>

theorem other_user_split_when_first_visited:
  assumes "wellFormed ds"
    and "firstVisited e ds = Some d"
    and "decorationUserIdOf d \<noteq> userId e"
    and "eff_from e < eff_to e"
  shows "\<exists>cs' res l m r. applyEffect e (cs, ds) = (cs', Inr res) \<and>
     map spanOf l = (if range_from d < eff_from e
                     then [(range_from d, eff_from e, decorationUserIdOf d)] else []) \<and>
     spanOf m = (eff_from e, eff_to e, userId e) \<and>
     map spanOf r = (if eff_to e < range_to d
                     then [(eff_to e, range_to d, decorationUserIdOf d)] else []) \<and>
     mset (concat res) = mset (concat ds) - {#d#} + mset (l @ [m] @ r) \<and>
     (authorshipEffects (effects tr) = [e] \<and> mapSet (changes tr) ds0 = ds \<longrightarrow>
        update mapSet (cs, ds0) tr = (cs', Inr res))"
proof -
  from applyEffect_split [OF wellFormed_layers [OF assms(1)] assms(2,3,4), of cs]
  obtain cs' res l m r where
    a: "applyEffect e (cs, ds) = (cs', Inr res)"
    and l: "map spanOf l = (if range_from d < eff_from e
                     then [(range_from d, eff_from e, decorationUserIdOf d)] else [])"
    and m: "spanOf m = (eff_from e, eff_to e, userId e)"
    and r: "map spanOf r = (if eff_to e < range_to d
                     then [(eff_to e, range_to d, decorationUserIdOf d)] else [])"
    and ms: "mset (concat res) = mset (concat ds) - {#d#} + mset (l @ [m] @ r)" by blast
  have u: "authorshipEffects (effects tr) = [e] \<and> mapSet (changes tr) ds0 = ds \<longrightarrow>
        update mapSet (cs, ds0) tr = (cs', Inr res)"
    using a by (auto simp: update_single)
  show ?thesis
    by (intro exI [of _ cs'] exI [of _ res] exI [of _ l] exI [of _ m] exI [of _ r]
          conjI a l m r ms u)
qed

theorem other_user_split_when_first_visited_witness:
  "\<exists>cs' res l m r.
     update noChanges ([''X'', ''V'', ''Z''],
         [[mark 0 2 0 ''X'', mark 3 10 1 ''V''], [mark 1 5 2 ''Z'']])
       (transactionOf [authorshipUpdate 4 6 ''U'' True]) = (cs', Inr res) \<and>
     map spanOf l = [(3, 4, ''V'')] \<and> spanOf m = (4, 6, ''U'') \<and>
     map spanOf r = [(6, 10, ''V'')] \<and>
     mset (concat res) = {#mark 0 2 0 ''X'', mark 1 5 2 ''Z''#} + mset (l @ [m] @ r)"
proof -
  let ?e = "authorshipUpdate 4 6 ''U'' True"
  let ?d = "mark 3 10 1 ''V''"
  let ?ds = "[[mark 0 2 0 ''X'', ?d], [mark 1 5 2 ''Z'']]"
  let ?tr = "transactionOf [?e]"
  have wf: "wellFormed ?ds"
    by (simp add: wellFormed_def wellFormedLayer_def goodMark_def mark_def)
  have fv: "firstVisited ?e ?ds = Some ?d"
    by (simp add: firstVisited_def filterApplies_def mark_def authorshipUpdate_def)
  have other: "decorationUserIdOf ?d \<noteq> userId ?e"
    by (simp add: decorationUserIdOf_def mark_def authorshipUpdate_def)
  have ne: "eff_from ?e < eff_to ?e"
    by (simp add: authorshipUpdate_def)
  have tr: "authorshipEffects (effects ?tr) = [?e] \<and> noChanges (changes ?tr) ?ds = ?ds"
    by (simp add: transactionOf_def noChanges_def)
  from other_user_split_when_first_visited
         [OF wf fv other ne, where tr = ?tr and mapSet = noChanges and ?ds0.0 = ?ds
            and cs = "[''X'', ''V'', ''Z'']"] tr
  obtain cs' res l m r where
    u: "update noChanges ([''X'', ''V'', ''Z''], ?ds) ?tr = (cs', Inr res)"
    and l: "map spanOf l = (if range_from ?d < eff_from ?e
                     then [(range_from ?d, eff_from ?e, decorationUserIdOf ?d)] else [])"
    and m: "spanOf m = (eff_from ?e, eff_to ?e, userId ?e)"
    and r: "map spanOf r = (if eff_to ?e < range_to ?d
                     then [(eff_to ?e, range_to ?d, decorationUserIdOf ?d)] else [])"
    and ms: "mset (concat res) = mset (concat ?ds) - {#?d#} + mset (l @ [m] @ r)" by blast
  have l': "map spanOf l = [(3, 4, ''V'')]"
    using l by (simp add: mark_def authorshipUpdate_def decorationUserIdOf_def)
  have m': "spanOf m = (4, 6, ''U'')"
    using m by (simp add: authorshipUpdate_def)
  have r': "map spanOf r = [(6, 10, ''V'')]"
    using r by (simp add: mark_def authorshipUpdate_def decorationUserIdOf_def)
  have ms': "mset (concat res) = {#mark 0 2 0 ''X'', mark 1 5 2 ''Z''#} + mset (l @ [m] @ r)"
    using ms by simp
  show ?thesis
    by (intro exI [of _ cs'] exI [of _ res] exI [of _ l] exI [of _ m] exI [of _ r]
          conjI u l' m' r' ms')
qed

subsection \<open>At most one decoration is handled per effect\<close>

text \<open>
  C9, as stated, fails: the bound is per effect, not per transaction. A transaction
  with two authorship updates of U, at 2..3 inside A's decoration 0..5 and at 12..13
  inside B's decoration 10..15, splits both decorations.
\<close>

theorem two_effects_replace_two_decorations_counterexample:
  "update noChanges ([''A'', ''B''], [[mark 0 5 0 ''A'', mark 10 15 1 ''B'']])
     (transactionOf [authorshipUpdate 2 3 ''U'' True, authorshipUpdate 12 13 ''U'' True])
     = ([''A'', ''B'', ''U''],
        Inr [[mark 0 2 0 ''A'', mark 2 3 2 ''U'', mark 3 5 0 ''A'',
              mark 10 12 1 ''B'', mark 12 13 2 ''U'', mark 13 15 1 ''B'']])"
  by (simp add: authorship_eval authorship_fixtures host_eval)

text \<open>
  C9, amended: the state-field update runs the transaction's authorship effects one
  after the other on the mapped set, stopping at the first throw. On a set with
  well-formed layers a non-empty effect (from < to) does not throw, and each effect that
  does not throw takes out at most one decoration of the set it works on: the result
  holds the decorations of that set without the first one the callback is asked about
  (all of them when it is asked about none), and one to three added marks. Every
  other decoration is kept, also when it touches the effect range. In particular, when
  the first decoration the callback is asked about is by the effect's user and adjacent
  to the effect range, and another decoration of that user is adjacent too, the first
  is merged with the effect and the other stays a decoration of its own.
\<close>

theorem effect_handles_at_most_one_decoration:
  "update mapSet s tr =
     forEachEffect (authorshipEffects (effects tr)) (fst s, mapSet (changes tr) (snd s)) \<and>
   (wellFormed ds \<and> eff_from e < eff_to e \<longrightarrow>
      (\<exists>cs' res. applyEffect e (cs, ds) = (cs', Inr res))) \<and>
   (wellFormed ds \<and> applyEffect e (cs, ds) = (cs1, Inr res1) \<longrightarrow>
      (\<exists>added. added \<noteq> [] \<and> length added \<le> 3 \<and>
         mset (concat res1) =
           (case firstVisited e ds of None \<Rightarrow> mset (concat ds)
            | Some d \<Rightarrow> mset (concat ds) - {#d#}) + mset added)) \<and>
   (wellFormed ds \<and> firstVisited e ds = Some d1 \<and> d2 \<in># mset (concat ds) - {#d1#} \<and>
    decorationUserIdOf d1 = userId e \<and> decorationUserIdOf d2 = userId e \<and>
    (range_from d1 = eff_to e \<or> range_to d1 = eff_from e) \<and>
    (range_from d2 = eff_to e \<or> range_to d2 = eff_from e) \<longrightarrow>
      (\<exists>cs' res m. applyEffect e (cs, ds) = (cs', Inr res) \<and>
         spanOf m = (min (range_from d1) (eff_from e), max (range_to d1) (eff_to e), userId e) \<and>
         mset (concat res) = mset (concat ds) - {#d1#} + {#m#} \<and>
         d2 \<in># mset (concat res)))"
proof (intro conjI impI)
  show "update mapSet s tr =
     forEachEffect (authorshipEffects (effects tr)) (fst s, mapSet (changes tr) (snd s))"
    by (rule update_forEach)
next
  assume a: "wellFormed ds \<and> eff_from e < eff_to e"
  then have wf: "list_all wellFormedLayer ds" and ne: "eff_from e < eff_to e"
    by (simp_all add: wellFormed_layers)
  show "\<exists>cs' res. applyEffect e (cs, ds) = (cs', Inr res)"
  proof (cases "firstVisited e ds")
    case None
    from applyEffect_unvisited [OF wf None ne, of cs] show ?thesis by blast
  next
    case (Some d)
    show ?thesis
    proof (cases "decorationUserIdOf d = userId e")
      case same: True
      show ?thesis
      proof (cases "range_from d = eff_to e \<or> range_to d = eff_from e")
        case True
        from applyEffect_merge [OF wf Some same True, of cs] show ?thesis by blast
      next
        case False
        from applyEffect_recreate [OF wf Some same False, of cs] show ?thesis by blast
      qed
    next
      case False
      from applyEffect_split [OF wf Some False ne, of cs] show ?thesis by blast
    qed
  qed
next
  assume a: "wellFormed ds \<and> applyEffect e (cs, ds) = (cs1, Inr res1)"
  then have wf: "list_all wellFormedLayer ds" and ok: "applyEffect e (cs, ds) = (cs1, Inr res1)"
    by (simp_all add: wellFormed_layers)
  from applyEffect_outcome [OF wf ok]
  show "\<exists>added. added \<noteq> [] \<and> length added \<le> 3 \<and>
         mset (concat res1) =
           (case firstVisited e ds of None \<Rightarrow> mset (concat ds)
            | Some d \<Rightarrow> mset (concat ds) - {#d#}) + mset added"
    by blast
next
  assume a: "wellFormed ds \<and> firstVisited e ds = Some d1 \<and>
    d2 \<in># mset (concat ds) - {#d1#} \<and>
    decorationUserIdOf d1 = userId e \<and> decorationUserIdOf d2 = userId e \<and>
    (range_from d1 = eff_to e \<or> range_to d1 = eff_from e) \<and>
    (range_from d2 = eff_to e \<or> range_to d2 = eff_from e)"
  then have wf: "list_all wellFormedLayer ds" and fv: "firstVisited e ds = Some d1"
    and same: "decorationUserIdOf d1 = userId e"
    and adj: "range_from d1 = eff_to e \<or> range_to d1 = eff_from e"
    and d2: "d2 \<in># mset (concat ds) - {#d1#}"
    by (simp_all add: wellFormed_layers)
  from applyEffect_merge [OF wf fv same adj, of cs] obtain cs' res m where
    r: "applyEffect e (cs, ds) = (cs', Inr res)"
    and s: "spanOf m = (min (range_from d1) (eff_from e), max (range_to d1) (eff_to e),
                        userId e)"
    and ms: "mset (concat res) = mset (concat ds) - {#d1#} + {#m#}" by blast
  have "d2 \<in># mset (concat res)" unfolding ms using d2 by simp
  with r s ms
  show "\<exists>cs' res m. applyEffect e (cs, ds) = (cs', Inr res) \<and>
         spanOf m = (min (range_from d1) (eff_from e), max (range_to d1) (eff_to e), userId e) \<and>
         mset (concat res) = mset (concat ds) - {#d1#} + {#m#} \<and>
         d2 \<in># mset (concat res)"
    by blast
qed

theorem effect_handles_at_most_one_decoration_witness:
  "\<exists>cs' res m added.
     update noChanges ([''X'', ''A''], [[mark 0 2 0 ''X'', mark 6 10 1 ''A''], [mark 1 5 1 ''A'']])
       (transactionOf [authorshipUpdate 5 6 ''A'' True]) = (cs', Inr res) \<and>
     spanOf m = (5, 10, ''A'') \<and>
     mset (concat res) = {#mark 0 2 0 ''X'', mark 1 5 1 ''A'', m#} \<and>
     added \<noteq> [] \<and> length added \<le> 3 \<and>
     mset (concat res) = {#mark 0 2 0 ''X'', mark 1 5 1 ''A''#} + mset added"
proof -
  let ?e = "authorshipUpdate 5 6 ''A'' True"
  let ?x = "mark 0 2 0 ''X''"
  let ?d1 = "mark 6 10 1 ''A''"
  let ?d2 = "mark 1 5 1 ''A''"
  let ?ds = "[[?x, ?d1], [?d2]]"
  let ?cs = "[''X'', ''A'']"
  let ?tr = "transactionOf [?e]"
  have wf: "wellFormed ?ds"
    by (simp add: wellFormed_def wellFormedLayer_def goodMark_def mark_def)
  have fv: "firstVisited ?e ?ds = Some ?d1"
    by (simp add: firstVisited_def filterApplies_def mark_def authorshipUpdate_def)
  have ne: "wellFormed ?ds \<and> eff_from ?e < eff_to ?e"
    using wf by (simp add: authorshipUpdate_def)
  have hyp: "wellFormed ?ds \<and> firstVisited ?e ?ds = Some ?d1 \<and>
    ?d2 \<in># mset (concat ?ds) - {#?d1#} \<and>
    decorationUserIdOf ?d1 = userId ?e \<and> decorationUserIdOf ?d2 = userId ?e \<and>
    (range_from ?d1 = eff_to ?e \<or> range_to ?d1 = eff_from ?e) \<and>
    (range_from ?d2 = eff_to ?e \<or> range_to ?d2 = eff_from ?e)"
    using wf fv by (simp add: decorationUserIdOf_def mark_def authorshipUpdate_def)
  have upd: "update noChanges (?cs, ?ds) ?tr =
      forEachEffect (authorshipEffects (effects ?tr))
        (fst (?cs, ?ds), noChanges (changes ?tr) (snd (?cs, ?ds)))"
    by (rule effect_handles_at_most_one_decoration [THEN conjunct1])
  from effect_handles_at_most_one_decoration
         [where e = ?e and cs = ?cs and ds = ?ds,
          THEN conjunct2, THEN conjunct1, THEN mp, OF ne]
  obtain cs' res where r: "applyEffect ?e (?cs, ?ds) = (cs', Inr res)" by blast
  from effect_handles_at_most_one_decoration
         [where e = ?e and cs = ?cs and ds = ?ds and ?cs1.0 = cs' and ?res1.0 = res,
          THEN conjunct2, THEN conjunct2, THEN conjunct1, THEN mp, OF conjI [OF wf r]]
  obtain added where
    a: "added \<noteq> []" "length added \<le> 3"
    and ma: "mset (concat res) =
           (case firstVisited ?e ?ds of None \<Rightarrow> mset (concat ?ds)
            | Some d \<Rightarrow> mset (concat ?ds) - {#d#}) + mset added" by blast
  from effect_handles_at_most_one_decoration
         [where e = ?e and cs = ?cs and ds = ?ds and ?d1.0 = ?d1 and ?d2.0 = ?d2,
          THEN conjunct2, THEN conjunct2, THEN conjunct2, THEN mp, OF hyp] r
  obtain m where
    s: "spanOf m = (min (range_from ?d1) (eff_from ?e), max (range_to ?d1) (eff_to ?e),
                    userId ?e)"
    and ms: "mset (concat res) = mset (concat ?ds) - {#?d1#} + {#m#}" by auto
  have u: "update noChanges (?cs, ?ds) ?tr = (cs', Inr res)"
    using upd r by (simp add: transactionOf_def noChanges_def)
  have s': "spanOf m = (5, 10, ''A'')"
    using s by (simp add: mark_def authorshipUpdate_def)
  have ms': "mset (concat res) = {#?x, ?d2, m#}" using ms by simp
  have ma': "mset (concat res) = {#?x, ?d2#} + mset added"
    using ma by (simp add: fv)
  show ?thesis
    by (intro exI [of _ cs'] exI [of _ res] exI [of _ m] exI [of _ added] conjI u s' ms' a ma')
qed

subsection \<open>The flag \<open>localUpdate\<close> is not read\<close>

lemma filterCallback_localUpdate: "filterCallback (e\<lparr>localUpdate := b\<rparr>) = filterCallback e"
  by (intro ext) (simp add: filterCallback_def Let_def)

lemma applyEffect_localUpdate: "applyEffect (e\<lparr>localUpdate := b\<rparr>) = applyEffect e"
  by (rule ext)
     (simp add: applyEffect_def filterCallback_localUpdate Let_def split: prod.splits sum.splits)

lemma authorshipEffects_erase:
  "authorshipEffects (map eraseLocalUpdate es) =
     map (\<lambda>u. u\<lparr>localUpdate := False\<rparr>) (authorshipEffects es)"
  by (induction es rule: authorshipEffects.induct) simp_all

lemma forEachEffect_erase:
  "forEachEffect (map (\<lambda>u. u\<lparr>localUpdate := False\<rparr>) us) s = forEachEffect us s"
  by (induction us arbitrary: s) (simp_all add: applyEffect_localUpdate)

lemma update_erase:
  "update mapSet s tr =
     forEachEffect (authorshipEffects (map eraseLocalUpdate (effects tr)))
       (fst s, mapSet (changes tr) (snd s))"
  by (simp add: update_forEach authorshipEffects_erase forEachEffect_erase)

subsection \<open>Independence of \<open>localUpdate\<close>\<close>

text \<open>
  C10: two transactions with the same changes whose effects differ at most in the
  \<open>localUpdate\<close> flags of their authorship updates lead the state-field update from any
  state to the same decoration set (and the same \<open>colorSet\<close>), or to the same throw.
\<close>

theorem update_independent_of_localUpdate:
  assumes "changes tr1 = changes tr2"
    and "map eraseLocalUpdate (effects tr1) = map eraseLocalUpdate (effects tr2)"
  shows "update mapSet s tr1 = update mapSet s tr2"
  by (simp add: update_erase assms)

theorem update_independent_of_localUpdate_witness:
  "update noChanges ([''A''], [[mark 0 5 0 ''A'']]) (transactionOf [authorshipUpdate 5 6 ''B'' True])
   = update noChanges ([''A''], [[mark 0 5 0 ''A'']])
       (transactionOf [authorshipUpdate 5 6 ''B'' False])"
proof -
  have "changes (transactionOf [authorshipUpdate 5 6 ''B'' True]) =
        changes (transactionOf [authorshipUpdate 5 6 ''B'' False])"
    by (simp add: transactionOf_def)
  moreover have
    "map eraseLocalUpdate (effects (transactionOf [authorshipUpdate 5 6 ''B'' True])) =
     map eraseLocalUpdate (effects (transactionOf [authorshipUpdate 5 6 ''B'' False]))"
    by (simp add: transactionOf_def authorshipUpdate_def)
  ultimately show ?thesis by (rule update_independent_of_localUpdate)
qed

section \<open>Properties of the note permissions\<close>

lemma userGrantLoop_iff:
  "userGrantLoop u w ps \<longleftrightarrow>
     (\<exists>p \<in> set ps. user_id (grantee p) = user_id u \<and> (canEdit p \<or> \<not> w))"
  by (induction ps) auto

lemma groupGrantLoop_iff:
  "groupGrantLoop cfg user w gps \<longleftrightarrow> (\<exists>gp \<in> set gps. groupPermissionApplies cfg user w gp)"
  by (induction gps) auto

lemma isMember_iff: "isMember u ms \<longleftrightarrow> (\<exists>m \<in> set ms. user_id m = user_id u)"
  by (induction ms) auto

lemma groupPermissionApplies_covers:
  "groupPermissionApplies cfg (Some u) w gp \<Longrightarrow> groupCovers u (grantee gp)"
  by (auto simp: groupPermissionApplies_def groupCovers_def isMember_iff list_ex_iff
           split: if_splits)

lemma hasPermissionUser_read:
  "hasPermissionUser (Some u) note False \<longleftrightarrow> hasUserGrant u True note \<or> hasUserGrant u False note"
  by (auto simp: hasPermissionUser_def userGrantLoop_iff hasUserGrant_def list_ex_iff)

lemma hasPermissionUser_write:
  "hasPermissionUser (Some u) note True \<longleftrightarrow> hasUserGrant u True note"
  by (auto simp: hasPermissionUser_def userGrantLoop_iff hasUserGrant_def list_ex_iff)

lemma hasPermissionGroup_covered:
  "hasPermissionGroup cfg (Some u) note w \<Longrightarrow> coveredByGroupGrant u note"
  by (auto simp: hasPermissionGroup_def groupGrantLoop_iff coveredByGroupGrant_def list_ex_iff
           dest: groupPermissionApplies_covers split: if_splits)

text \<open>The definitions that evaluate the permission checks on concrete notes.\<close>

lemmas permission_eval =
  mayRead_def mayWrite_def isOwner_def hasPermissionUser_def hasPermissionGroup_def
  groupPermissionApplies_def guestAccessAllows_def defaultEveryoneAllows_def
  SpecialGroup_EVERYONE_def SpecialGroup_LOGGED_IN_def

subsection \<open>The layers for an authenticated user\<close>

text \<open>
  C1, as stated, fails in one clause: a user grant with canEdit false does not keep the
  user from writing. user1 holds such a grant on a note of user2 that also grants the
  special group LOGGED_IN writing; user1 is not the owner, and mayWrite is true.
\<close>

theorem read_only_user_grant_may_write_counterexample:
  "\<not> isOwner (Some user1) noteUser1ReadLoggedInWrite \<and>
   hasUserGrant user1 False noteUser1ReadLoggedInWrite \<and>
   \<not> hasUserGrant user1 True noteUser1ReadLoggedInWrite \<and>
   mayWrite (noteMockConfig GuestAccess_DENY) (Some user1) noteUser1ReadLoggedInWrite"
  by (simp add: permission_eval hasUserGrant_def noteUser1ReadLoggedInWrite_def createNote_def
        createUserPermission_def createNoteGroupPermission_def loggedIn_def user1_def user2_def
        noteMockConfig_def)

text \<open>
  C1, amended: for every authenticated user and every note, the owner may read and
  write; a user grant with canEdit true allows reading and writing; a user grant with
  canEdit false allows reading and does not itself allow writing: for a user who is not
  the owner and holds no user grant with canEdit true, mayWrite is the answer of the
  group layer; a user who is not the owner and is covered by no user grant and no
  group grant may neither read nor write.
\<close>

theorem mayRead_mayWrite_layers:
  "(isOwner (Some u) note \<longrightarrow> mayRead cfg (Some u) note \<and> mayWrite cfg (Some u) note) \<and>
   (hasUserGrant u True note \<longrightarrow> mayRead cfg (Some u) note \<and> mayWrite cfg (Some u) note) \<and>
   (hasUserGrant u False note \<longrightarrow> mayRead cfg (Some u) note) \<and>
   (\<not> isOwner (Some u) note \<and> \<not> hasUserGrant u True note \<longrightarrow>
      mayWrite cfg (Some u) note = hasPermissionGroup cfg (Some u) note True) \<and>
   (\<not> isOwner (Some u) note \<and> \<not> hasUserGrant u True note \<and> \<not> hasUserGrant u False note \<and>
    \<not> coveredByGroupGrant u note \<longrightarrow>
      \<not> mayRead cfg (Some u) note \<and> \<not> mayWrite cfg (Some u) note)"
  using hasPermissionGroup_covered [of cfg u "note"]
  by (auto simp: mayRead_def mayWrite_def hasPermissionUser_read hasPermissionUser_write)

text \<open>The expectations of the tests \<open>mayRead works with\<close> and \<open>mayWrite works with\<close>.\<close>

theorem mayRead_mayWrite_layers_witness:
  "mayRead (noteMockConfig GuestAccess_DENY) (Some user1) noteNobodyRead \<and>
   mayWrite (noteMockConfig GuestAccess_DENY) (Some user1) noteNobodyRead \<and>
   mayRead (noteMockConfig GuestAccess_DENY) (Some user1) noteUser2Write \<and>
   mayWrite (noteMockConfig GuestAccess_DENY) (Some user1) noteUser2Write \<and>
   mayRead (noteMockConfig GuestAccess_DENY) (Some user1) noteUser1Read \<and>
   \<not> mayWrite (noteMockConfig GuestAccess_DENY) (Some user1) noteUser1Read \<and>
   \<not> mayRead (noteMockConfig GuestAccess_DENY) (Some user1) noteUser2Read \<and>
   \<not> mayWrite (noteMockConfig GuestAccess_DENY) (Some user1) noteUser2Read"
proof -
  let ?cfg = "noteMockConfig GuestAccess_DENY"
  note fixtures = hasUserGrant_def coveredByGroupGrant_def noteNobodyRead_def noteUser1Read_def
    noteUser2Write_def noteUser2Read_def createNote_def createUserPermission_def user1_def
    user2_def
  note c1 = conjunct1 and c2 = conjunct2
  have own: "isOwner (Some user1) noteNobodyRead"
    by (simp add: permission_eval fixtures)
  have wr: "hasUserGrant user1 True noteUser2Write"
    by (simp add: permission_eval fixtures)
  have rd: "hasUserGrant user1 False noteUser1Read"
    and rd': "\<not> isOwner (Some user1) noteUser1Read \<and> \<not> hasUserGrant user1 True noteUser1Read"
    and rdg: "\<not> hasPermissionGroup ?cfg (Some user1) noteUser1Read True"
    by (simp_all add: permission_eval fixtures)
  have no: "\<not> isOwner (Some user1) noteUser2Read \<and> \<not> hasUserGrant user1 True noteUser2Read \<and>
            \<not> hasUserGrant user1 False noteUser2Read \<and> \<not> coveredByGroupGrant user1 noteUser2Read"
    by (simp add: permission_eval fixtures)
  have 1: "mayRead ?cfg (Some user1) noteNobodyRead \<and> mayWrite ?cfg (Some user1) noteNobodyRead"
    by (rule mayRead_mayWrite_layers [THEN c1, THEN mp, OF own])
  have 2: "mayRead ?cfg (Some user1) noteUser2Write \<and> mayWrite ?cfg (Some user1) noteUser2Write"
    by (rule mayRead_mayWrite_layers [THEN c2, THEN c1, THEN mp, OF wr])
  have 3: "mayRead ?cfg (Some user1) noteUser1Read"
    by (rule mayRead_mayWrite_layers [THEN c2, THEN c2, THEN c1, THEN mp, OF rd])
  have "mayWrite ?cfg (Some user1) noteUser1Read =
          hasPermissionGroup ?cfg (Some user1) noteUser1Read True"
    by (rule mayRead_mayWrite_layers [THEN c2, THEN c2, THEN c2, THEN c1, THEN mp, OF rd'])
  with rdg have 4: "\<not> mayWrite ?cfg (Some user1) noteUser1Read" by simp
  have 5: "\<not> mayRead ?cfg (Some user1) noteUser2Read \<and> \<not> mayWrite ?cfg (Some user1) noteUser2Read"
    by (rule mayRead_mayWrite_layers [THEN c2, THEN c2, THEN c2, THEN c2, THEN mp, OF no])
  from 1 2 3 4 5 show ?thesis by simp
qed

subsection \<open>Guests\<close>

text \<open>
  C2: under the guest-access policy DENY a guest may neither read nor write any note,
  whatever the note grants; the witness is the note with a write grant for EVERYONE.
\<close>

theorem guest_denied_under_DENY:
  "guestAccess cfg = GuestAccess_DENY \<Longrightarrow> \<not> mayRead cfg None note \<and> \<not> mayWrite cfg None note"
  by (simp add: mayRead_def mayWrite_def isOwner_def hasPermissionUser_def hasPermissionGroup_def)

theorem guest_denied_under_DENY_witness:
  "hasEveryoneWriteGrant noteEverybodyWrite \<and>
   \<not> mayRead (noteMockConfig GuestAccess_DENY) None noteEverybodyWrite \<and>
   \<not> mayWrite (noteMockConfig GuestAccess_DENY) None noteEverybodyWrite"
proof -
  have deny: "guestAccess (noteMockConfig GuestAccess_DENY) = GuestAccess_DENY"
    by (simp add: noteMockConfig_def)
  have "hasEveryoneWriteGrant noteEverybodyWrite"
    by (simp add: hasEveryoneWriteGrant_def isEveryoneGroup_def noteEverybodyWrite_def
          createNote_def createNoteGroupPermission_def everybody_def)
  with guest_denied_under_DENY [OF deny, of noteEverybodyWrite] show ?thesis by simp
qed

text \<open>
  C3: with the default access level of EVERYONE at WRITE, a guest may write a note
  exactly when the guest-access policy is WRITE or CREATE and the note has a grant of
  the special group EVERYONE with canEdit true. Under READ (and DENY) the right-hand
  side is false, so the guest never writes.
\<close>

theorem guest_mayWrite_iff:
  "defaultEveryone cfg = DefaultAccessLevel_WRITE \<Longrightarrow>
   mayWrite cfg None note \<longleftrightarrow>
     (guestAccess cfg = GuestAccess_WRITE \<or> guestAccess cfg = GuestAccess_CREATE) \<and>
     hasEveryoneWriteGrant note"
  by (cases "guestAccess cfg")
     (auto simp: mayWrite_def isOwner_def hasPermissionUser_def hasPermissionGroup_def
           groupGrantLoop_iff groupPermissionApplies_def isEveryoneGroup_def
           hasEveryoneWriteGrant_def list_ex_iff guestAccessAllows_def defaultEveryoneAllows_def)

theorem guest_mayWrite_iff_witness:
  "mayWrite (noteMockConfig GuestAccess_WRITE) None noteEverybodyWrite \<and>
   mayWrite (noteMockConfig GuestAccess_CREATE) None noteEverybodyWrite \<and>
   \<not> mayWrite (noteMockConfig GuestAccess_READ) None noteEverybodyWrite"
proof -
  have lvl: "defaultEveryone (noteMockConfig g) = DefaultAccessLevel_WRITE" for g
    by (simp add: noteMockConfig_def)
  have g: "guestAccess (noteMockConfig g) = g" for g
    by (simp add: noteMockConfig_def)
  have grant: "hasEveryoneWriteGrant noteEverybodyWrite"
    by (simp add: hasEveryoneWriteGrant_def isEveryoneGroup_def noteEverybodyWrite_def
          createNote_def createNoteGroupPermission_def everybody_def)
  from guest_mayWrite_iff [OF lvl, of GuestAccess_WRITE noteEverybodyWrite]
       guest_mayWrite_iff [OF lvl, of GuestAccess_CREATE noteEverybodyWrite]
       guest_mayWrite_iff [OF lvl, of GuestAccess_READ noteEverybodyWrite]
  show ?thesis by (simp add: g grant)
qed

subsection \<open>Group permissions in any order\<close>

text \<open>
  C5: replacing the note's list of group permissions by a permutation of it changes
  neither mayRead nor mayWrite, for guests and users alike.
\<close>

theorem mayRead_mayWrite_group_order:
  assumes "mset gps = mset (groupPermissions note)"
  shows "mayRead cfg user (note\<lparr>groupPermissions := gps\<rparr>) = mayRead cfg user note \<and>
         mayWrite cfg user (note\<lparr>groupPermissions := gps\<rparr>) = mayWrite cfg user note"
proof -
  from assms have s: "set gps = set (groupPermissions note)" by (rule mset_eq_setD)
  have g: "hasPermissionGroup cfg user (note\<lparr>groupPermissions := gps\<rparr>) w =
           hasPermissionGroup cfg user note w" for w
    by (simp add: hasPermissionGroup_def groupGrantLoop_iff s)
  have u: "hasPermissionUser user (note\<lparr>groupPermissions := gps\<rparr>) w =
           hasPermissionUser user note w" for w
    by (simp add: hasPermissionUser_def split: option.splits)
  have ow: "isOwner user (note\<lparr>groupPermissions := gps\<rparr>) = isOwner user note"
    by (simp add: isOwner_def split: option.splits)
  show ?thesis by (simp add: mayRead_def mayWrite_def g u ow)
qed

theorem mayRead_mayWrite_group_order_witness:
  "mayWrite (noteMockConfig GuestAccess_DENY) (Some user1)
     ((createNote user2)\<lparr>groupPermissions :=
         [createNoteGroupPermission user2group True, createNoteGroupPermission user1group True]\<rparr>)
   = mayWrite (noteMockConfig GuestAccess_DENY) (Some user1)
     ((createNote user2)\<lparr>groupPermissions :=
         [createNoteGroupPermission user1group True, createNoteGroupPermission user2group True]\<rparr>)"
proof -
  let ?a = "createNoteGroupPermission user1group True"
  let ?b = "createNoteGroupPermission user2group True"
  let ?n = "(createNote user2)\<lparr>groupPermissions := [?a, ?b]\<rparr>"
  have "mset [?b, ?a] = mset (groupPermissions ?n)" by simp
  from mayRead_mayWrite_group_order [OF this, of "noteMockConfig GuestAccess_DENY" "Some user1"]
  show ?thesis by simp
qed

subsection \<open>Inconsistent permission updates\<close>

lemma distinct_no_duplicate: "distinct xs \<Longrightarrow> \<not> hasDuplicateGrant xs"
  by (auto simp: hasDuplicateGrant_def nth_eq_iff_index_eq)

lemma hasDuplicateGrant_check: "hasDuplicateGrant xs \<Longrightarrow> checkArrayForDuplicates xs"
  using distinct_no_duplicate card_distinct unfolding checkArrayForDuplicates_def by blast

text \<open>
  C4: a request whose sharedToUsers holds two grants for the same user name, or whose
  sharedToGroups holds two grants for the same group name, is rejected with
  PermissionsUpdateInconsistentError, whatever the lookups would answer.
\<close>

theorem updateNotePermissions_rejects_duplicates:
  "hasDuplicateGrant (map dto_username (sharedToUsers dto)) \<or>
   hasDuplicateGrant (map dto_groupName (sharedToGroups dto)) \<Longrightarrow>
   updateNotePermissions getUser getGroup note dto = Inl PermissionsUpdateInconsistentError"
  using hasDuplicateGrant_check by (auto simp: updateNotePermissions_def Let_def)

theorem updateNotePermissions_rejects_duplicates_witness:
  "updateNotePermissions lookupFails lookupFails noteNobodyRead
     \<lparr>sharedToUsers = [userPermissionUpdate, userPermissionUpdate], sharedToGroups = []\<rparr>
     = Inl PermissionsUpdateInconsistentError \<and>
   updateNotePermissions lookupFails lookupFails noteNobodyRead
     \<lparr>sharedToUsers = [], sharedToGroups = [groupPermissionUpdate, groupPermissionUpdate]\<rparr>
     = Inl PermissionsUpdateInconsistentError"
proof -
  have dup: "hasDuplicateGrant [x, x]" for x :: string
    unfolding hasDuplicateGrant_def
    by (rule exI [of _ 0], simp, rule exI [of _ 1], simp)
  have u: "hasDuplicateGrant (map dto_username (sharedToUsers
             \<lparr>sharedToUsers = [userPermissionUpdate, userPermissionUpdate], sharedToGroups = []\<rparr>)) \<or>
           hasDuplicateGrant (map dto_groupName (sharedToGroups
             \<lparr>sharedToUsers = [userPermissionUpdate, userPermissionUpdate], sharedToGroups = []\<rparr>))"
    by (simp add: dup)
  have g: "hasDuplicateGrant (map dto_username (sharedToUsers
             \<lparr>sharedToUsers = [], sharedToGroups = [groupPermissionUpdate, groupPermissionUpdate]\<rparr>)) \<or>
           hasDuplicateGrant (map dto_groupName (sharedToGroups
             \<lparr>sharedToUsers = [], sharedToGroups = [groupPermissionUpdate, groupPermissionUpdate]\<rparr>))"
    by (simp add: dup)
  from updateNotePermissions_rejects_duplicates [OF u]
       updateNotePermissions_rejects_duplicates [OF g]
  show ?thesis by simp
qed

end
